theory Spec2Isabelle
  imports Complex_Main "HOL-Library.Word" "HOL-Library.Log_Nat"
begin

unbundle bit_operations_syntax

section \<open>The number type of the language\<close>

text \<open>
  The program is TypeScript: every \<open>number\<close> is an IEEE 754 double. A finite double is
  held as the rational it denotes; the results of arithmetic and of the conversions from
  strings are rounded to the nearest double (ties to even). Negative zero is identified
  with zero: no operation of the program tells them apart (comparisons, bitwise
  operators, \<open>Math.pow(2, _)\<close> and printing treat both alike).
\<close>

datatype jsnum = Fin rat | NaN | PosInf | NegInf

definition pow2 :: "int \<Rightarrow> rat" where
  "pow2 k = (if 0 \<le> k then 2 ^ nat k else 1 / 2 ^ nat (- k))"

text \<open>For \<open>q > 0\<close>, the exponent \<open>k\<close> with \<open>2^k \<le> q < 2^(k+1)\<close>.\<close>

definition ilog2 :: "rat \<Rightarrow> int" where
  "ilog2 q = (if 1 \<le> q then bitlen \<lfloor>q\<rfloor> - 1 else - bitlen (\<lceil>1 / q\<rceil> - 1))"

definition round_half_even :: "rat \<Rightarrow> int" where
  "round_half_even x =
     (let f = \<lfloor>x\<rfloor>; r = x - of_int f
      in if r < 1 / 2 then f else if 1 / 2 < r then f + 1 else if even f then f else f + 1)"

text \<open>
  Rounding to a double: 53 significant bits, least exponent \<open>-1074\<close> (subnormals),
  overflow to infinity from \<open>2^1024\<close> on.
\<close>

definition round_double :: "rat \<Rightarrow> jsnum" where
  "round_double q =
     (if q = 0 then Fin 0
      else let a = \<bar>q\<bar>;
               e = max (ilog2 a - 52) (- 1074);
               v = of_int (round_half_even (a / pow2 e)) * pow2 e
           in if pow2 1024 \<le> v then (if 0 < q then PosInf else NegInf)
              else Fin (if 0 < q then v else - v))"

fun js_neg :: "jsnum \<Rightarrow> jsnum" where
  "js_neg (Fin a) = Fin (- a)"
| "js_neg NaN = NaN"
| "js_neg PosInf = NegInf"
| "js_neg NegInf = PosInf"

fun js_add :: "jsnum \<Rightarrow> jsnum \<Rightarrow> jsnum" where
  "js_add (Fin a) (Fin b) = round_double (a + b)"
| "js_add NaN _ = NaN"
| "js_add _ NaN = NaN"
| "js_add PosInf NegInf = NaN"
| "js_add NegInf PosInf = NaN"
| "js_add PosInf _ = PosInf"
| "js_add NegInf _ = NegInf"
| "js_add _ PosInf = PosInf"
| "js_add _ NegInf = NegInf"

definition js_sub :: "jsnum \<Rightarrow> jsnum \<Rightarrow> jsnum" where
  "js_sub a b = js_add a (js_neg b)"

text \<open>\<open>a <= b\<close>; false as soon as one side is NaN. \<open>a >= b\<close> is \<open>js_le b a\<close>.\<close>

fun js_le :: "jsnum \<Rightarrow> jsnum \<Rightarrow> bool" where
  "js_le (Fin a) (Fin b) = (a \<le> b)"
| "js_le NaN _ = False"
| "js_le _ NaN = False"
| "js_le NegInf _ = True"
| "js_le _ PosInf = True"
| "js_le PosInf _ = False"
| "js_le _ NegInf = False"

definition js_ge :: "jsnum \<Rightarrow> jsnum \<Rightarrow> bool" where
  "js_ge a b = js_le b a"

fun isNaN :: "jsnum \<Rightarrow> bool" where
  "isNaN NaN = True"
| "isNaN _ = False"

subsection \<open>The 32-bit operators\<close>

text \<open>
  The bitwise operators convert their operands with ToInt32 (truncate towards zero, reduce
  modulo \<open>2^32\<close>; NaN and the infinities give 0) and work on the 32 bits. The result of
  \<open><<\<close>, \<open>&\<close>, \<open>|\<close> and \<open>~\<close> is read back as a signed 32-bit integer, the result of
  \<open>>>>\<close> as an unsigned one. A shift count is taken modulo 32.
\<close>

definition js_trunc :: "rat \<Rightarrow> int" where
  "js_trunc q = (if 0 \<le> q then \<lfloor>q\<rfloor> else \<lceil>q\<rceil>)"

fun ToInt32 :: "jsnum \<Rightarrow> 32 word" where
  "ToInt32 (Fin q) = word_of_int (js_trunc q)"
| "ToInt32 _ = 0"

definition of_int32 :: "32 word \<Rightarrow> jsnum" where
  "of_int32 w = Fin (of_int (sint w))"

definition of_uint32 :: "32 word \<Rightarrow> jsnum" where
  "of_uint32 w = Fin (of_int (uint w))"

definition shift_count :: "jsnum \<Rightarrow> nat" where
  "shift_count y = unat (ToInt32 y AND 31)"

definition js_shl :: "jsnum \<Rightarrow> jsnum \<Rightarrow> jsnum" where
  "js_shl x y = of_int32 (push_bit (shift_count y) (ToInt32 x))"

definition js_ushr :: "jsnum \<Rightarrow> jsnum \<Rightarrow> jsnum" where
  "js_ushr x y = of_uint32 (drop_bit (shift_count y) (ToInt32 x))"

definition js_and :: "jsnum \<Rightarrow> jsnum \<Rightarrow> jsnum" where
  "js_and x y = of_int32 (ToInt32 x AND ToInt32 y)"

definition js_or :: "jsnum \<Rightarrow> jsnum \<Rightarrow> jsnum" where
  "js_or x y = of_int32 (ToInt32 x OR ToInt32 y)"

definition js_not :: "jsnum \<Rightarrow> jsnum" where
  "js_not x = of_int32 (NOT (ToInt32 x))"

text \<open>
  \<open>Math.pow(2, y)\<close>. The program calls it on \<open>32 - prefix\<close> only, where \<open>prefix\<close> comes
  from \<open>parseInt\<close>: an integer, NaN or an infinity. No call has a fractional exponent;
  the model takes the floor of one.
\<close>

fun Math_pow2 :: "jsnum \<Rightarrow> jsnum" where
  "Math_pow2 (Fin y) = round_double (pow2 \<lfloor>y\<rfloor>)"
| "Math_pow2 NaN = NaN"
| "Math_pow2 PosInf = PosInf"
| "Math_pow2 NegInf = Fin 0"

section \<open>Strings\<close>

text \<open>
  A string is the list of its code units; the model covers the strings whose code units
  are below 256 (\<open>char\<close> is eight bits wide). White space is what \<open>parseInt\<close> and
  \<open>Number\<close> strip: TAB, LF, VT, FF, CR, SPACE and NO-BREAK SPACE in that range.
\<close>

definition is_ws :: "char \<Rightarrow> bool" where
  "is_ws c = ((of_char c :: nat) \<in> {9, 10, 11, 12, 13, 32, 160})"

definition is_digit :: "char \<Rightarrow> bool" where
  "is_digit c = (48 \<le> (of_char c :: nat) \<and> (of_char c :: nat) \<le> 57)"

definition digit_val :: "char \<Rightarrow> nat" where
  "digit_val c = of_char c - 48"

definition dec_val :: "string \<Rightarrow> nat" where
  "dec_val s = foldl (\<lambda>a c. 10 * a + digit_val c) 0 s"

text \<open>
  \<open>s.split(sep)\<close> for a separator of one character. The result is never the empty list:
  a character that is not the separator goes in front of the first part of what follows.
\<close>

fun split :: "char \<Rightarrow> string \<Rightarrow> string list" where
  "split sep [] = [[]]"
| "split sep (c # cs) =
     (if c = sep then [] # split sep cs
      else (case split sep cs of p # ps \<Rightarrow> (c # p) # ps | [] \<Rightarrow> [[c]]))"

text \<open>\<open>xs.join(sep)\<close> on strings.\<close>

fun join :: "string \<Rightarrow> string list \<Rightarrow> string" where
  "join sep [] = []"
| "join sep [x] = x"
| "join sep (x # y # ys) = x @ sep @ join sep (y # ys)"

text \<open>An array read: past the end it is \<open>undefined\<close>, here \<open>None\<close>.\<close>

definition elem_at :: "'a list \<Rightarrow> nat \<Rightarrow> 'a option" where
  "elem_at xs i = (if i < length xs then Some (xs ! i) else None)"

subsection \<open>\<open>parseInt(s, 10)\<close>\<close>

text \<open>
  Leading white space is skipped, one sign is read, then the longest run of decimal
  digits; what follows the digits is ignored. No digit at all gives NaN.
\<close>

definition parseInt :: "string \<Rightarrow> jsnum" where
  "parseInt s =
     (let t = dropWhile is_ws s;
          neg = (t \<noteq> [] \<and> hd t = CHR ''-'');
          u = (if t \<noteq> [] \<and> (hd t = CHR ''-'' \<or> hd t = CHR ''+'') then tl t else t);
          ds = takeWhile is_digit u
      in if ds = [] then NaN
         else round_double (if neg then - of_nat (dec_val ds) else of_nat (dec_val ds)))"

text \<open>\<open>parseInt\<close> of a value that may be \<open>undefined\<close>: it is first printed, as \<open>undefined\<close>.\<close>

definition parseInt_opt :: "string option \<Rightarrow> jsnum" where
  "parseInt_opt v = (case v of None \<Rightarrow> parseInt ''undefined'' | Some s \<Rightarrow> parseInt s)"

subsection \<open>\<open>Number(s)\<close>\<close>

text \<open>
  White space is trimmed at both ends. The empty string is 0. Otherwise the whole string
  must be a numeric literal: \<open>0x\<close>, \<open>0o\<close>, \<open>0b\<close> and digits of that base (unsigned), or an
  optionally signed \<open>Infinity\<close> or decimal literal (digits, an optional fraction, an
  optional exponent). Anything else is NaN.
\<close>

definition trim :: "string \<Rightarrow> string" where
  "trim s = rev (dropWhile is_ws (rev (dropWhile is_ws s)))"

definition hex_val :: "char \<Rightarrow> nat option" where
  "hex_val c =
     (let n = (of_char c :: nat)
      in if 48 \<le> n \<and> n \<le> 57 then Some (n - 48)
         else if 65 \<le> n \<and> n \<le> 70 then Some (n - 55)
         else if 97 \<le> n \<and> n \<le> 102 then Some (n - 87)
         else None)"

text \<open>The value of a non-empty run of digits of base \<open>b\<close>; NaN on any other character.\<close>

definition radix_lit :: "nat \<Rightarrow> string \<Rightarrow> jsnum" where
  "radix_lit b ds =
     (if ds \<noteq> [] \<and> list_all (\<lambda>c. case hex_val c of None \<Rightarrow> False | Some d \<Rightarrow> d < b) ds
      then round_double (of_nat (foldl (\<lambda>a c. b * a + the (hex_val c)) 0 ds))
      else NaN)"

text \<open>The exponent part: empty, or \<open>e\<close>/\<open>E\<close>, an optional sign and at least one digit.\<close>

definition exponent_part :: "string \<Rightarrow> int option" where
  "exponent_part r =
     (if r = [] then Some 0
      else if hd r = CHR ''e'' \<or> hd r = CHR ''E'' then
        (let r1 = tl r;
             neg = (r1 \<noteq> [] \<and> hd r1 = CHR ''-'');
             ds = (if r1 \<noteq> [] \<and> (hd r1 = CHR ''-'' \<or> hd r1 = CHR ''+'') then tl r1 else r1)
         in if ds \<noteq> [] \<and> list_all is_digit ds
            then Some (if neg then - int (dec_val ds) else int (dec_val ds))
            else None)
      else None)"

definition pow10 :: "int \<Rightarrow> rat" where
  "pow10 k = (if 0 \<le> k then 10 ^ nat k else 1 / 10 ^ nat (- k))"

definition unsigned_decimal :: "string \<Rightarrow> rat option" where
  "unsigned_decimal u =
     (let ip = takeWhile is_digit u;
          r1 = dropWhile is_digit u;
          dot = (r1 \<noteq> [] \<and> hd r1 = CHR ''.'');
          fp = (if dot then takeWhile is_digit (tl r1) else []);
          r2 = (if dot then dropWhile is_digit (tl r1) else r1)
      in if ip = [] \<and> fp = [] then None
         else (case exponent_part r2 of
                 None \<Rightarrow> None
               | Some e \<Rightarrow>
                   Some ((of_nat (dec_val ip) + of_nat (dec_val fp) / 10 ^ length fp) * pow10 e)))"

definition Number :: "string \<Rightarrow> jsnum" where
  "Number s =
     (let t = trim s
      in if t = [] then Fin 0
         else if take 2 t = ''0x'' \<or> take 2 t = ''0X'' then radix_lit 16 (drop 2 t)
         else if take 2 t = ''0o'' \<or> take 2 t = ''0O'' then radix_lit 8 (drop 2 t)
         else if take 2 t = ''0b'' \<or> take 2 t = ''0B'' then radix_lit 2 (drop 2 t)
         else
           (let neg = (hd t = CHR ''-'');
                u = (if hd t = CHR ''-'' \<or> hd t = CHR ''+'' then tl t else t)
            in if u = ''Infinity'' then (if neg then NegInf else PosInf)
               else (case unsigned_decimal u of
                       None \<Rightarrow> NaN
                     | Some q \<Rightarrow> round_double (if neg then - q else q))))"

text \<open>An array element that may be \<open>undefined\<close>, as an operand: \<open>undefined\<close> is NaN.\<close>

definition num_at :: "jsnum list \<Rightarrow> nat \<Rightarrow> jsnum" where
  "num_at xs i = (case elem_at xs i of None \<Rightarrow> NaN | Some x \<Rightarrow> x)"

subsection \<open>Printing a number\<close>

fun digit_char :: "nat \<Rightarrow> char" where
  "digit_char n = char_of (48 + n)"

function show_nat :: "nat \<Rightarrow> string" where
  "show_nat n = (if n < 10 then [digit_char n] else show_nat (n div 10) @ [digit_char (n mod 10)])"
  by pat_completeness auto
termination
  by (relation "measure id") auto

text \<open>
  \<open>String(x)\<close>: exact for NaN, the infinities and every integer below \<open>2^53\<close> in
  magnitude, which covers all the numbers the program prints (octets and validated
  prefix lengths). The other doubles, which the language prints with the shortest
  digits that read back, are outside the model and printed as \<open>?\<close>.
\<close>

definition Number_toString :: "jsnum \<Rightarrow> string" where
  "Number_toString x =
     (case x of
        NaN \<Rightarrow> ''NaN''
      | PosInf \<Rightarrow> ''Infinity''
      | NegInf \<Rightarrow> ''-Infinity''
      | Fin q \<Rightarrow>
          if q = of_int \<lfloor>q\<rfloor> \<and> \<bar>q\<bar> < 2 ^ 53
          then (if q < 0 then ''-'' @ show_nat (nat (- \<lfloor>q\<rfloor>)) else show_nat (nat \<lfloor>q\<rfloor>))
          else ''?'')"

section \<open>The CIDR engine: \<open>src/lib/ip-utils.ts\<close>\<close>

text \<open>
  \<open>ipToNumber\<close>: \<open>ip.split('.').map(Number)\<close>, then
  \<open>(parts[0] << 24) + (parts[1] << 16) + (parts[2] << 8) + parts[3]\<close>.
\<close>

definition ipToNumber :: "string \<Rightarrow> jsnum" where
  "ipToNumber ip =
     (let parts = map Number (split CHR ''.'' ip)
      in js_add
           (js_add
              (js_add (js_shl (num_at parts 0) (Fin 24)) (js_shl (num_at parts 1) (Fin 16)))
              (js_shl (num_at parts 2) (Fin 8)))
           (num_at parts 3))"

text \<open>
  \<open>numberToIp\<close>: \<open>[(num >>> 24) & 255, (num >>> 16) & 255, (num >>> 8) & 255, num & 255].join('.')\<close>.
\<close>

definition numberToIp :: "jsnum \<Rightarrow> string" where
  "numberToIp num =
     join ''.''
       (map Number_toString
          [js_and (js_ushr num (Fin 24)) (Fin 255),
           js_and (js_ushr num (Fin 16)) (Fin 255),
           js_and (js_ushr num (Fin 8)) (Fin 255),
           js_and num (Fin 255)])"

definition isValidIp :: "string \<Rightarrow> bool" where
  "isValidIp ip =
     (let parts = split CHR ''.'' ip
      in if length parts \<noteq> 4 then False
         else list_all
                (\<lambda>part. let num = parseInt part
                        in \<not> isNaN num \<and> js_ge num (Fin 0) \<and> js_le num (Fin 255))
                parts)"

definition isValidCIDR :: "string \<Rightarrow> bool" where
  "isValidCIDR cidr =
     (let parts = split CHR ''/'' cidr
      in if length parts \<noteq> 2 then False
         else let ip = parts ! 0;
                  prefix = parts ! 1;
                  prefixNum = parseInt prefix
              in isValidIp ip \<and> \<not> isNaN prefixNum \<and> js_ge prefixNum (Fin 8)
                 \<and> js_le prefixNum (Fin 32))"

definition getNetworkAddress :: "string \<Rightarrow> jsnum \<Rightarrow> string" where
  "getNetworkAddress ip prefix =
     (let ipNum = ipToNumber ip;
          mask = js_ushr (js_shl (Fin (- 1)) (js_sub (Fin 32) prefix)) (Fin 0);
          network = js_ushr (js_and ipNum mask) (Fin 0)
      in numberToIp network)"

record cidr_info =
  networkAddress :: string
  broadcastAddress :: string
  firstIp :: string
  lastIp :: string
  totalIps :: jsnum
  prefix :: jsnum

text \<open>
  \<open>parseCIDR\<close>. The destructuring \<open>[ip, prefixStr] = cidr.split('/')\<close> leaves \<open>prefixStr\<close>
  undefined when the string has no slash; further parts are ignored.
\<close>

definition parseCIDR :: "string \<Rightarrow> cidr_info" where
  "parseCIDR cidr =
     (let parts = split CHR ''/'' cidr;
          ip = parts ! 0;
          prefixStr = elem_at parts 1;
          prefix = parseInt_opt prefixStr;
          ipNum = ipToNumber ip;
          mask = js_ushr (js_shl (Fin (- 1)) (js_sub (Fin 32) prefix)) (Fin 0);
          network = js_ushr (js_and ipNum mask) (Fin 0);
          broadcast = js_ushr (js_or network (js_not mask)) (Fin 0)
      in \<lparr> networkAddress = numberToIp network,
           broadcastAddress = numberToIp broadcast,
           firstIp = numberToIp (js_add network (Fin 1)),
           lastIp = numberToIp (js_sub broadcast (Fin 1)),
           totalIps = Math_pow2 (js_sub (Fin 32) prefix),
           prefix = prefix \<rparr>)"

definition cidrsOverlap :: "string \<Rightarrow> string \<Rightarrow> bool" where
  "cidrsOverlap cidr1 cidr2 =
     (let range1 = parseCIDR cidr1;
          range2 = parseCIDR cidr2;
          start1 = ipToNumber (networkAddress range1);
          end1 = ipToNumber (broadcastAddress range1);
          start2 = ipToNumber (networkAddress range2);
          end2 = ipToNumber (broadcastAddress range2)
      in js_le start1 end2 \<and> js_ge end1 start2)"

definition isChildOfParent :: "string \<Rightarrow> string \<Rightarrow> bool" where
  "isChildOfParent childCidr parentCidr =
     (let child = parseCIDR childCidr;
          parent = parseCIDR parentCidr;
          childStart = ipToNumber (networkAddress child);
          childEnd = ipToNumber (broadcastAddress child);
          parentStart = ipToNumber (networkAddress parent);
          parentEnd = ipToNumber (broadcastAddress parent)
      in js_ge childStart parentStart \<and> js_le childEnd parentEnd)"

definition normalizeCIDR :: "string \<Rightarrow> string" where
  "normalizeCIDR cidr =
     (let parts = split CHR ''/'' cidr;
          ip = parts ! 0;
          prefixStr = elem_at parts 1;
          prefix = parseInt_opt prefixStr;
          network = getNetworkAddress ip prefix
      in network @ ''/'' @ Number_toString prefix)"

section \<open>The pool hierarchy: the component \<open>IPAMManager\<close>\<close>

text \<open>
  The component (\<open>src/components/IPAMManager.tsx\<close>) is listed in \<open>README.md\<close>, from
  which \<open>buildPoolTree\<close> and \<open>validateCIDR\<close> are taken.

  \<open>parentId?: number | null\<close> has three kinds of value; \<open>id?: number\<close> is \<open>None\<close> when
  undefined. Identifiers are integers (the database assigns them). The field \<open>id\<close> is
  written \<open>pool_id\<close>: \<open>id\<close> is the identity function of HOL.
\<close>

datatype parent_ref = Undefined | Null | Ref int

record IPPool =
  pool_id :: "int option"
  name :: string
  cidr :: string
  description :: "string option"
  parentId :: parent_ref
  createdAt :: "string option"

text \<open>
  \<open>interface PoolTreeNode extends IPPool\<close>. The nodes are objects shared between
  \<open>poolMap\<close>, \<open>rootNodes\<close> and the \<open>children\<close> arrays, and they are updated in place. The
  model keeps them in a store: \<open>poolMap\<close> itself, a map from the key of a node to the
  node, and a reference to a node is its key. (An object that \<open>poolMap.set\<close> replaces is
  never referred to again: every reference is obtained from \<open>poolMap.get\<close> later.)
  \<open>level\<close> is a count of at most the number of pools, held as a natural number.
\<close>

type_synonym key = "int option"

record PoolTreeNode = IPPool +
  children :: "key list"
  totalIps :: jsnum
  usedIps :: jsnum
  level :: nat

type_synonym store = "key \<rightharpoonup> PoolTreeNode"

text \<open>Reading a property of \<open>undefined\<close> throws.\<close>

datatype error = TypeError

text \<open>
  The first loop: every pool becomes a node with no children, \<open>usedIps\<close> 0 and \<open>level\<close> 0,
  stored under its id.
\<close>

definition new_node :: "IPPool \<Rightarrow> PoolTreeNode" where
  "new_node pool =
     (let info = parseCIDR (cidr pool)
      in IPPool.extend pool
           (PoolTreeNode.fields [] (cidr_info.totalIps info) (Fin 0) 0))"

definition init_nodes :: "IPPool list \<Rightarrow> store" where
  "init_nodes allPools =
     foldl (\<lambda>poolMap pool. poolMap(pool_id pool \<mapsto> new_node pool)) Map.empty allPools"

text \<open>
  The body of the second loop, on the store and \<open>rootNodes\<close>. A pool whose parent is not
  in the map falls through both branches: nothing is done with it.
\<close>

definition link_pool :: "store \<times> key list \<Rightarrow> IPPool \<Rightarrow> error + store \<times> key list" where
  "link_pool st pool =
     (let poolMap = fst st; rootNodes = snd st; node = pool_id pool
      in case parentId pool of
           Null \<Rightarrow> Inr (poolMap, rootNodes @ [node])
         | Undefined \<Rightarrow> Inr (poolMap, rootNodes @ [node])
         | Ref p \<Rightarrow>
             (case poolMap (Some p) of
                None \<Rightarrow> Inr (poolMap, rootNodes)
              | Some parent \<Rightarrow>
                  (case poolMap node of
                     None \<Rightarrow> Inl TypeError
                   | Some n \<Rightarrow>
                       let m1 = poolMap(node \<mapsto> n\<lparr>level := level parent + 1\<rparr>)
                       in (case m1 (Some p) of
                             None \<Rightarrow> Inl TypeError
                           | Some parent1 \<Rightarrow>
                               Inr (m1(Some p \<mapsto> parent1\<lparr>children := children parent1 @ [node]\<rparr>),
                                    rootNodes)))))"

fun link_all :: "store \<times> key list \<Rightarrow> IPPool list \<Rightarrow> error + store \<times> key list" where
  "link_all st [] = Inr st"
| "link_all st (pool # pools) =
     (case link_pool st pool of Inl e \<Rightarrow> Inl e | Inr st' \<Rightarrow> link_all st' pools)"

text \<open>
  \<open>calculateUsedIps\<close> calls itself on every child. The first argument bounds the depth of
  the calls: \<open>None\<close> is a recursion deeper than that. \<open>sum_children\<close> is the
  \<open>node.children.forEach\<close> loop, with \<open>used\<close> as its accumulator.
\<close>

fun calculateUsedIps :: "nat \<Rightarrow> store \<Rightarrow> key \<Rightarrow> (error + jsnum \<times> store) option"
  and sum_children :: "nat \<Rightarrow> store \<Rightarrow> key list \<Rightarrow> jsnum \<Rightarrow> (error + jsnum \<times> store) option"
where
  "calculateUsedIps 0 m node = None"
| "calculateUsedIps (Suc n) m node =
     (case m node of
        None \<Rightarrow> Some (Inl TypeError)
      | Some nd \<Rightarrow>
          (case sum_children n m (children nd) (Fin 0) of
             None \<Rightarrow> None
           | Some (Inl e) \<Rightarrow> Some (Inl e)
           | Some (Inr (used, m')) \<Rightarrow>
               (case m' node of
                  None \<Rightarrow> Some (Inl TypeError)
                | Some nd' \<Rightarrow> Some (Inr (used, m'(node \<mapsto> nd'\<lparr>usedIps := used\<rparr>))))))"
| "sum_children n m [] used = Some (Inr (used, m))"
| "sum_children n m (child # rest) used =
     (case m child of
        None \<Rightarrow> Some (Inl TypeError)
      | Some c \<Rightarrow>
          (case calculateUsedIps n m child of
             None \<Rightarrow> None
           | Some (Inl e) \<Rightarrow> Some (Inl e)
           | Some (Inr (u, m1)) \<Rightarrow>
               (case m1 child of
                  None \<Rightarrow> Some (Inl TypeError)
                | Some c1 \<Rightarrow>
                    sum_children n (m1(child \<mapsto> c1\<lparr>usedIps := u\<rparr>)) rest
                      (js_add used (totalIps c)))))"

text \<open>\<open>rootNodes.forEach(calculateUsedIps)\<close>: the returned sums are dropped.\<close>

fun calc_roots :: "nat \<Rightarrow> store \<Rightarrow> key list \<Rightarrow> (error + store) option" where
  "calc_roots n m [] = Some (Inr m)"
| "calc_roots n m (r # rs) =
     (case calculateUsedIps n m r of
        None \<Rightarrow> None
      | Some (Inl e) \<Rightarrow> Some (Inl e)
      | Some (Inr (u, m')) \<Rightarrow> calc_roots n m' rs)"

text \<open>
  \<open>buildPoolTree\<close>: the result is what \<open>setPoolTree\<close> receives, the root references
  together with the store they point into.
\<close>

definition buildPoolTree :: "nat \<Rightarrow> IPPool list \<Rightarrow> (error + store \<times> key list) option" where
  "buildPoolTree depth allPools =
     (case link_all (init_nodes allPools, []) allPools of
        Inl e \<Rightarrow> Some (Inl e)
      | Inr (poolMap, rootNodes) \<Rightarrow>
          (case calc_roots depth poolMap rootNodes of
             None \<Rightarrow> None
           | Some (Inl e) \<Rightarrow> Some (Inl e)
           | Some (Inr m) \<Rightarrow> Some (Inr (m, rootNodes))))"

text \<open>The nodes of the forest: what can be reached from the roots through \<open>children\<close>.\<close>

inductive_set forest :: "store \<Rightarrow> key list \<Rightarrow> key set" for m :: store and roots :: "key list" where
  root: "k \<in> set roots \<Longrightarrow> k \<in> forest m roots"
| child: "k \<in> forest m roots \<Longrightarrow> m k = Some nd \<Longrightarrow> c \<in> set (children nd) \<Longrightarrow> c \<in> forest m roots"

subsection \<open>Validating a candidate\<close>

text \<open>
  \<open>cidrExists(cidr)\<close> of \<open>src/lib/db.ts\<close>, called without \<open>excludeId\<close>: the query
  \<open>SELECT COUNT(*) ... WHERE cidr = ?\<close> over the rows of the table, given here as a list.
\<close>

definition cidrExists :: "IPPool list \<Rightarrow> string \<Rightarrow> bool" where
  "cidrExists rows c = list_ex (\<lambda>row. cidr row = c) rows"

text \<open>\<open>p.parentId === parentId\<close>, for \<open>parentId: number | null\<close> (\<open>None\<close> is \<open>null\<close>).\<close>

fun same_parent :: "parent_ref \<Rightarrow> int option \<Rightarrow> bool" where
  "same_parent Null None = True"
| "same_parent (Ref a) (Some b) = (a = b)"
| "same_parent _ _ = False"

text \<open>
  What \<open>validateCIDR\<close> leaves in the component's state: the message given to
  \<open>setValidationError\<close> (empty when the candidate is accepted), the value given to
  \<open>setCidrInfo\<close> and the CIDR of the form.
\<close>

record validation =
  validationError :: string
  cidrInfo :: "cidr_info option"
  formCidr :: string

text \<open>
  \<open>validateCIDR(cidr, parentId)\<close>, on the rows of the table and the \<open>pools\<close> of the
  component's state. The checks run in the order of the source and the first failure
  returns.
\<close>

definition validateCIDR :: "IPPool list \<Rightarrow> IPPool list \<Rightarrow> string \<Rightarrow> int option \<Rightarrow> validation" where
  "validateCIDR rows pools cidr0 parentId0 =
     (if cidr0 = [] then \<lparr>validationError = [], cidrInfo = None, formCidr = cidr0\<rparr>
      else if \<not> isValidCIDR cidr0 then
        \<lparr>validationError = ''Invalid CIDR format. Use format like 10.0.0.0/24'',
         cidrInfo = None, formCidr = cidr0\<rparr>
      else
        let normalized = normalizeCIDR cidr0;
            cidr1 = (if normalized \<noteq> cidr0 then normalized else cidr0);
            info = parseCIDR cidr1;
            result = (\<lambda>msg. \<lparr>validationError = msg, cidrInfo = Some info, formCidr = cidr1\<rparr>)
        in if cidrExists rows cidr1 then result ''This CIDR range already exists''
           else if (case parentId0 of
                      None \<Rightarrow> False
                    | Some pid \<Rightarrow>
                        (case find (\<lambda>p. pool_id p = Some pid) pools of
                           None \<Rightarrow> False
                         | Some parent \<Rightarrow> \<not> isChildOfParent cidr1 (cidr parent)))
           then result ''Child pool must be within parent pool range''
           else
             (case find (\<lambda>sibling. cidrsOverlap cidr1 (cidr sibling))
                     (filter (\<lambda>p. same_parent (parentId p) parentId0) pools) of
                Some sibling \<Rightarrow>
                  result (''Overlaps with existing pool: '' @ name sibling @ '' ('' @ cidr sibling @ '')'')
              | None \<Rightarrow> result []))"

section \<open>Auxiliary notions for the statements\<close>

text \<open>A non-empty string of decimal digits.\<close>

definition digits :: "string \<Rightarrow> bool" where
  "digits s = (s \<noteq> [] \<and> list_all is_digit s)"

text \<open>An integer as a number.\<close>

definition jint :: "int \<Rightarrow> jsnum" where
  "jint k = Fin (of_int k)"

text \<open>The 32 bits of \<open>v < 2^32\<close> read as a signed integer.\<close>

definition signed32 :: "nat \<Rightarrow> int" where
  "signed32 v = (if v < 2 ^ 31 then int v else int v - 2 ^ 32)"

text \<open>The value of four octets as one number.\<close>

definition octets_value :: "nat \<Rightarrow> nat \<Rightarrow> nat \<Rightarrow> nat \<Rightarrow> nat" where
  "octets_value a b c d = a * 2 ^ 24 + b * 2 ^ 16 + c * 2 ^ 8 + d"

text \<open>An octet written in decimal without leading zeros, and an address of four of them.\<close>

definition canonical_octet :: "string \<Rightarrow> bool" where
  "canonical_octet s = (digits s \<and> (hd s \<noteq> CHR ''0'' \<or> s = ''0'') \<and> dec_val s \<le> 255)"

definition canonical_ip :: "string \<Rightarrow> bool" where
  "canonical_ip ip = (let parts = split CHR ''.'' ip in length parts = 4 \<and> list_all canonical_octet parts)"

subsection \<open>The spec's notions of validity and of a block\<close>

text \<open>
  These follow the words of the spec (section 4.1), not the code, to be compared with the
  code: an address is exactly four dot-separated decimal octets, each in [0, 255], with
  no other character; a CIDR is exactly one slash-separated pair of such an address and
  a decimal prefix length in [8, 32]. The block of a valid CIDR is the interval from its
  network address (the address with the host bits cleared) to its broadcast address (the
  host bits set), as unsigned integers.
\<close>

definition spec_isValidIP :: "string \<Rightarrow> bool" where
  "spec_isValidIP s =
     (let parts = split CHR ''.'' s
      in length parts = 4 \<and> list_all (\<lambda>p. digits p \<and> dec_val p \<le> 255) parts)"

definition spec_isValidCIDR :: "string \<Rightarrow> bool" where
  "spec_isValidCIDR s =
     (let parts = split CHR ''/'' s
      in length parts = 2 \<and> spec_isValidIP (parts ! 0) \<and> digits (parts ! 1)
         \<and> 8 \<le> dec_val (parts ! 1) \<and> dec_val (parts ! 1) \<le> 32)"

definition cidr_ip_value :: "string \<Rightarrow> nat" where
  "cidr_ip_value c =
     (let os = map dec_val (split CHR ''.'' (split CHR ''/'' c ! 0))
      in octets_value (os ! 0) (os ! 1) (os ! 2) (os ! 3))"

definition cidr_prefix :: "string \<Rightarrow> nat" where
  "cidr_prefix c = dec_val (split CHR ''/'' c ! 1)"

definition block_network :: "string \<Rightarrow> nat" where
  "block_network c = cidr_ip_value c div 2 ^ (32 - cidr_prefix c) * 2 ^ (32 - cidr_prefix c)"

definition block_broadcast :: "string \<Rightarrow> nat" where
  "block_broadcast c = block_network c + 2 ^ (32 - cidr_prefix c) - 1"

subsection \<open>Notions for the statements about the pool tree\<close>

text \<open>The parent of a key, read off the pool list: the \<open>parentId\<close> of the first pool with that id.\<close>

definition parent_of :: "IPPool list \<Rightarrow> key \<Rightarrow> key option" where
  "parent_of pools k =
     (case find (\<lambda>p. pool_id p = k) pools of
        None \<Rightarrow> None
      | Some p \<Rightarrow> (case parentId p of Ref q \<Rightarrow> Some (Some q) | _ \<Rightarrow> None))"

text \<open>\<open>n\<close> parent hops upwards from a key, if there are that many.\<close>

fun up :: "(key \<Rightarrow> key option) \<Rightarrow> nat \<Rightarrow> key \<Rightarrow> key option" where
  "up par 0 k = Some k"
| "up par (Suc n) k = (case par k of None \<Rightarrow> None | Some p \<Rightarrow> up par n p)"

text \<open>A key lies on a cycle of \<open>parentId\<close> references when some positive number of hops leads back to it.\<close>

definition on_cycle :: "IPPool list \<Rightarrow> key \<Rightarrow> bool" where
  "on_cycle pools k = (\<exists>j > 0. up (parent_of pools) j k = Some k)"

text \<open>A downward path below \<open>k\<close>: each key is a child of the one before, the first a child of \<open>k\<close>.\<close>

inductive down_path :: "store \<Rightarrow> key \<Rightarrow> key list \<Rightarrow> bool" for m :: store where
  path_Nil: "down_path m k []"
| path_Cons: "m k = Some nd \<Longrightarrow> c \<in> set (children nd) \<Longrightarrow> down_path m c cs \<Longrightarrow> down_path m k (c # cs)"

text \<open>Every downward path below \<open>k\<close> is shorter than \<open>n\<close>: \<open>n\<close> nested calls suffice at \<open>k\<close>.\<close>

definition depth_below :: "store \<Rightarrow> key \<Rightarrow> nat \<Rightarrow> bool" where
  "depth_below m k n = (\<forall>cs. down_path m k cs \<longrightarrow> length cs < n)"

text \<open>Every reference held in a \<open>children\<close> array points into the store.\<close>

definition refs_closed :: "store \<Rightarrow> bool" where
  "refs_closed m = (\<forall>k nd. m k = Some nd \<longrightarrow> set (children nd) \<subseteq> dom m)"

text \<open>Two stores with the same keys and, at every key, the same \<open>children\<close> and \<open>totalIps\<close>.\<close>

definition same_shape :: "store \<Rightarrow> store \<Rightarrow> bool" where
  "same_shape m m' =
     (\<forall>k. map_option (\<lambda>n. (children n, totalIps n)) (m' k)
          = map_option (\<lambda>n. (children n, totalIps n)) (m k))"

text \<open>\<open>child.totalIps\<close> through a reference.\<close>

definition total_of :: "store \<Rightarrow> key \<Rightarrow> jsnum" where
  "total_of m c = (case m c of None \<Rightarrow> NaN | Some n \<Rightarrow> totalIps n)"

text \<open>The sum the loop of \<open>calculateUsedIps\<close> builds: \<open>totalIps\<close> of the direct children, added from 0 in the order of the array.\<close>

definition children_total :: "store \<Rightarrow> key list \<Rightarrow> jsnum" where
  "children_total m cs = foldl js_add (Fin 0) (map (total_of m) cs)"

text \<open>The node at \<open>k\<close> exists and its \<open>usedIps\<close> is the sum of \<open>totalIps\<close> over its direct children.\<close>

definition usedIps_direct :: "store \<Rightarrow> key \<Rightarrow> bool" where
  "usedIps_direct m k = (case m k of None \<Rightarrow> False | Some nd \<Rightarrow> usedIps nd = children_total m (children nd))"

text \<open>What a run of \<open>calculateUsedIps\<close> keeps: the shape of the store, and every node whose \<open>usedIps\<close> was right.\<close>

definition calc_post :: "store \<Rightarrow> store \<Rightarrow> bool" where
  "calc_post m m' = (same_shape m m' \<and> (\<forall>x. usedIps_direct m x \<longrightarrow> usedIps_direct m' x))"

text \<open>The state after any number of steps of the second loop: the store has exactly the ids of the pools as keys, every child refers to its parent through \<open>parentId\<close>, and every root is a pool without parent.\<close>

definition linked :: "IPPool list \<Rightarrow> store \<times> key list \<Rightarrow> bool" where
  "linked pools st =
     (dom (fst st) = pool_id ` set pools
      \<and> (\<forall>k nd c. fst st k = Some nd \<longrightarrow> c \<in> set (children nd) \<longrightarrow>
             parent_of pools c = Some k \<and> c \<in> dom (fst st))
      \<and> (\<forall>r \<in> set (snd st). r \<in> dom (fst st) \<and> parent_of pools r = None))"

text \<open>The derived fields of a node: \<open>children\<close>, \<open>totalIps\<close>, \<open>usedIps\<close>, \<open>level\<close>.\<close>

definition node_view :: "store \<Rightarrow> key \<Rightarrow> (key list \<times> jsnum \<times> jsnum \<times> nat) option" where
  "node_view m k = map_option (\<lambda>n. (children n, totalIps n, usedIps n, level n)) (m k)"

text \<open>A result laid out for reading: the roots, and the derived fields of the nodes at the given keys.\<close>

definition tree_view ::
  "(error + store \<times> key list) option \<Rightarrow> key list
     \<Rightarrow> (error + key list \<times> (key list \<times> jsnum \<times> jsnum \<times> nat) option list) option" where
  "tree_view r ks = map_option (map_sum id (\<lambda>st. (snd st, map (node_view (fst st)) ks))) r"

text \<open>The nodes of the forest of a result (none when there is no result).\<close>

definition forest_of :: "(error + store \<times> key list) option \<Rightarrow> key set" where
  "forest_of r = (case r of Some (Inr st) \<Rightarrow> forest (fst st) (snd st) | _ \<Rightarrow> {})"

text \<open>A pool with the given id, CIDR and parent reference, for the examples.\<close>

definition pool :: "int \<Rightarrow> string \<Rightarrow> parent_ref \<Rightarrow> IPPool" where
  "pool i c p = \<lparr>pool_id = Some i, name = ''pool'', cidr = c, description = None,
                 parentId = p, createdAt = None\<rparr>"

text \<open>The store of a result (empty when there is no result).\<close>

definition result_store :: "(error + store \<times> key list) option \<Rightarrow> store" where
  "result_store r = (case r of Some (Inr st) \<Rightarrow> fst st | _ \<Rightarrow> Map.empty)"

text \<open>
  The aggregation as the spec words it (section 4.2, step 3): \<open>usedIps\<close> of a node is the sum
  over its direct children of \<open>child.totalIps + child.usedIps\<close>, which for a node amounts to
  \<open>totalIps\<close> summed over all its descendants.
\<close>

definition spec_usedIps :: "store \<Rightarrow> key \<Rightarrow> bool" where
  "spec_usedIps m k =
     (case node_view m k of
        None \<Rightarrow> False
      | Some v \<Rightarrow>
          fst (snd (snd v)) =
            foldl js_add (Fin 0)
              (map (\<lambda>c. case node_view m c of
                           None \<Rightarrow> NaN
                         | Some w \<Rightarrow> js_add (fst (snd w)) (fst (snd (snd w))))
                 (fst v)))"

text \<open>Linking changes \<open>level\<close> and \<open>children\<close> only: every \<open>usedIps\<close> is still 0 after it.\<close>

definition unused :: "store \<Rightarrow> bool" where
  "unused m = (\<forall>k nd. m k = Some nd \<longrightarrow> usedIps nd = Fin 0)"

section \<open>Numbers and strings: basic facts\<close>

declare show_nat.simps [simp del]

lemma round_half_even_int: "round_half_even (of_int m) = m"
  by (simp add: round_half_even_def)

lemma round_double_pos_int:
  assumes "0 < n" "n < 2 ^ 53"
  shows "round_double (of_int n) = Fin (of_int n)"
proof -
  have b: "bitlen n \<le> 53" using assms by (simp add: bitlen_le_iff_power)
  define e where "e = max (bitlen n - 1 - 52) (- 1074)"
  have e: "e \<le> 0" "- 1074 \<le> e" using b by (auto simp: e_def)
  have il: "ilog2 (of_int n) = bitlen n - 1" using assms(1) by (simp add: ilog2_def)
  have pe: "pow2 e = 1 / 2 ^ nat (- e)" using e by (cases "e = 0") (auto simp: pow2_def)
  have q: "(of_int n :: rat) / pow2 e = of_int (n * 2 ^ nat (- e))"
    by (simp add: pe)
  have v: "of_int (round_half_even ((of_int n :: rat) / pow2 e)) * pow2 e = of_int n"
    unfolding q round_half_even_int by (simp add: pe)
  have lt: "(of_int n :: rat) < pow2 1024"
  proof -
    have "n < 2 ^ 1024" using assms(2) by (rule less_trans) simp
    then have "(of_int n :: rat) < of_int (2 ^ 1024)" by (simp only: of_int_less_iff)
    then show ?thesis by (simp add: pow2_def)
  qed
  have n0: "(of_int n :: rat) \<noteq> 0" "0 < (of_int n :: rat)" "\<bar>of_int n :: rat\<bar> = of_int n"
    using assms(1) by auto
  show ?thesis
    unfolding round_double_def Let_def n0(3) il
    using v lt n0 by (simp add: e_def not_le)
qed

lemma round_double_int:
  assumes "\<bar>n\<bar> < 2 ^ 53"
  shows "round_double (of_int n) = Fin (of_int n)"
proof -
  consider "n = 0" | "0 < n" | "n < 0" by linarith
  then show ?thesis
  proof cases
    case 1 then show ?thesis by (simp add: round_double_def)
  next
    case 2 then show ?thesis using assms by (simp add: round_double_pos_int)
  next
    case 3
    then have p: "0 < - n" "- n < 2 ^ 53" using assms by auto
    have "round_double (of_int (- n)) = Fin (of_int (- n))" by (rule round_double_pos_int [OF p])
    moreover have "round_double (- q) = js_neg (round_double q)" for q
      by (simp add: round_double_def Let_def)
    ultimately show ?thesis
      by (metis js_neg.simps(1) of_int_minus add.inverse_inverse)
  qed
qed

lemma round_double_nat: "n < 2 ^ 53 \<Longrightarrow> round_double (of_nat n) = Fin (of_nat n)"
  using round_double_int [of "int n"] by simp

subsection \<open>Digit strings\<close>

lemma is_digit_not_ws: "is_digit c \<Longrightarrow> \<not> is_ws c"
  by (auto simp: is_digit_def is_ws_def)

lemma is_digit_chars [simp]:
  "\<not> is_digit CHR ''.''" "\<not> is_digit CHR ''/''" "\<not> is_digit CHR ''-''" "\<not> is_digit CHR ''+''"
  "\<not> is_digit CHR ''x''" "\<not> is_digit CHR ''X''" "\<not> is_digit CHR ''o''" "\<not> is_digit CHR ''O''"
  "\<not> is_digit CHR ''b''" "\<not> is_digit CHR ''B''" "\<not> is_digit CHR ''I''"
  by (simp_all add: is_digit_def)

lemma digits_hd: "digits s \<Longrightarrow> is_digit (hd s)"
  by (cases s) (auto simp: digits_def)

lemma digits_last: "digits s \<Longrightarrow> is_digit (last s)"
  by (auto simp: digits_def list_all_iff)

lemma digits_set: "digits s \<Longrightarrow> c \<in> set s \<Longrightarrow> is_digit c"
  by (auto simp: digits_def list_all_iff)

lemma dropWhile_ws_digits: "digits s \<Longrightarrow> dropWhile is_ws s = s"
  by (cases s) (auto simp: digits_def is_digit_not_ws)

lemma trim_digits: "digits s \<Longrightarrow> trim s = s"
proof -
  assume d: "digits s"
  then have "rev s \<noteq> []" "\<not> is_ws (hd (rev s))"
    using digits_last [OF d] by (auto simp: digits_def hd_rev is_digit_not_ws)
  then have "dropWhile is_ws (rev s) = rev s" by (cases "rev s") auto
  then show ?thesis by (simp add: trim_def dropWhile_ws_digits [OF d])
qed

lemma takeWhile_digits: "digits s \<Longrightarrow> takeWhile is_digit s = s"
  by (simp add: digits_def list_all_iff)

lemma dropWhile_digits: "digits s \<Longrightarrow> dropWhile is_digit s = []"
  by (simp add: digits_def list_all_iff)

lemma take2_digits:
  assumes "digits s" "\<not> is_digit c"
  shows "take 2 s \<noteq> [d, c]"
proof
  assume "take 2 s = [d, c]"
  then have "c \<in> set (take 2 s)" by simp
  then have "c \<in> set s" by (rule in_set_takeD)
  with assms show False by (auto dest: digits_set)
qed

lemma Number_digits:
  assumes d: "digits s" and b: "dec_val s < 2 ^ 53"
  shows "Number s = Fin (of_nat (dec_val s))"
proof -
  have ne: "s \<noteq> []" using d by (simp add: digits_def)
  have h: "hd s \<noteq> CHR ''-''" "hd s \<noteq> CHR ''+''"
    using digits_hd [OF d] by auto
  have inf: "s \<noteq> ''Infinity''" using digits_hd [OF d] by auto
  have ud: "unsigned_decimal s = Some (of_nat (dec_val s))"
    by (simp add: unsigned_decimal_def takeWhile_digits [OF d] dropWhile_digits [OF d]
        exponent_part_def pow10_def dec_val_def ne)
  show ?thesis
    unfolding Number_def Let_def trim_digits [OF d]
    using ne h inf take2_digits [OF d] ud round_double_nat [OF b]
    by simp
qed

lemma parseInt_digits:
  assumes d: "digits s" and b: "dec_val s < 2 ^ 53"
  shows "parseInt s = Fin (of_nat (dec_val s))"
proof -
  have ne: "s \<noteq> []" using d by (simp add: digits_def)
  have h: "hd s \<noteq> CHR ''-''" "hd s \<noteq> CHR ''+''"
    using digits_hd [OF d] by auto
  show ?thesis
    unfolding parseInt_def Let_def dropWhile_ws_digits [OF d]
    using ne h round_double_nat [OF b] by (simp add: takeWhile_digits [OF d])
qed

subsection \<open>Splitting and joining\<close>

lemma split_nonempty: "split sep s \<noteq> []"
  by (induction s) (auto split: list.splits)

lemma split_no_sep: "sep \<notin> set a \<Longrightarrow> split sep a = [a]"
  by (induction a) auto

lemma split_append: "sep \<notin> set a \<Longrightarrow> split sep (a @ sep # b) = a # split sep b"
  by (induction a) auto

subsection \<open>Printing\<close>

lemma digit_char_props: "d < 10 \<Longrightarrow> is_digit (digit_char d) \<and> digit_val (digit_char d) = d"
  by (simp add: is_digit_def digit_val_def)

lemma dec_val_snoc: "dec_val (xs @ [c]) = 10 * dec_val xs + digit_val c"
  by (simp add: dec_val_def)

lemma show_nat_digits: "digits (show_nat n)"
proof (induction n rule: show_nat.induct)
  case (1 n)
  show ?case
  proof (cases "n < 10")
    case True
    then show ?thesis using digit_char_props [of n]
      by (subst show_nat.simps) (simp add: digits_def del: digit_char.simps)
  next
    case False
    then show ?thesis using 1 digit_char_props [of "n mod 10"]
      by (subst show_nat.simps) (simp add: digits_def del: digit_char.simps)
  qed
qed

lemma dec_val_show_nat: "dec_val (show_nat n) = n"
proof (induction n rule: show_nat.induct)
  case (1 n)
  show ?case
  proof (cases "n < 10")
    case True
    then show ?thesis using digit_char_props [of n]
      by (subst show_nat.simps) (simp add: dec_val_def del: digit_char.simps)
  next
    case False
    then show ?thesis using 1 digit_char_props [of "n mod 10"]
      by (subst show_nat.simps) (simp add: dec_val_snoc del: digit_char.simps)
  qed
qed

declare of_int_sint [simp del] of_int_uint [simp del]

lemma sint_of_nat32:
  assumes "v < 2 ^ 32"
  shows "sint (word_of_nat v :: 32 word) = signed32 v"
proof -
  have "sint (word_of_nat v :: 32 word) = (int v + 2 ^ 31) mod 2 ^ 32 - 2 ^ 31"
    using int_word_sint [of "int v", where 'a = 32] by simp
  also have "\<dots> = signed32 v"
  proof (cases "v < 2 ^ 31")
    case True
    then have "(int v + 2 ^ 31) mod 2 ^ 32 = int v + 2 ^ 31"
      by (intro mod_pos_pos_trivial) auto
    then show ?thesis using True by (simp add: signed32_def)
  next
    case False
    have "int v + 2 ^ 31 = (int v - 2 ^ 31) + 2 ^ 32" by simp
    then have "(int v + 2 ^ 31) mod 2 ^ 32 = (int v - 2 ^ 31 + 2 ^ 32) mod 2 ^ 32" by (simp only:)
    also have "\<dots> = (int v - 2 ^ 31) mod 2 ^ 32" by (simp only: mod_add_self2)
    also have "\<dots> = int v - 2 ^ 31"
      using False assms by (intro mod_pos_pos_trivial) auto
    finally show ?thesis using False by (simp add: signed32_def)
  qed
  finally show ?thesis .
qed

lemma trunc_of_int [simp]: "js_trunc (of_int k) = k"
  by (simp add: js_trunc_def)

lemma ToInt32_jint [simp]: "ToInt32 (jint k) = word_of_int k"
  by (simp add: jint_def)

lemma Fin_numeral: "Fin (numeral k) = jint (numeral k)" "Fin 0 = jint 0" "Fin 1 = jint 1"
  "Fin (- 1) = jint (- 1)"
  by (simp_all add: jint_def)

lemma of_int32_jint: "of_int32 w = jint (sint w)"
  by (simp add: of_int32_def jint_def)

lemma of_uint32_jint: "of_uint32 w = jint (uint w)"
  by (simp add: of_uint32_def jint_def)

lemma word_of_int_sint32 [simp]: "word_of_int (sint w) = (w :: 32 word)"
  by (metis scast_eq scast_id)

lemma ToInt32_of_int32 [simp]: "ToInt32 (of_int32 w) = w"
  by (simp add: of_int32_jint)

lemma ToInt32_of_uint32 [simp]: "ToInt32 (of_uint32 w) = w"
  by (simp add: of_uint32_jint word_of_int_uint)

lemma shift_count_small: "0 \<le> k \<Longrightarrow> k < 32 \<Longrightarrow> shift_count (jint k) = nat k"
proof -
  assume k: "0 \<le> k" "k < 32"
  have "(31 :: 32 word) = mask 5" by (simp add: mask_eq_exp_minus_1)
  then have "(word_of_int k :: 32 word) AND 31 = take_bit 5 (word_of_int k)"
    by (simp add: take_bit_eq_mask)
  also have "\<dots> = word_of_int (take_bit 5 k)"
    by (simp add: take_bit_of_int)
  also have "take_bit 5 k = k" using k by (simp add: take_bit_int_eq_self)
  finally have "unat ((word_of_int k :: 32 word) AND 31) = unat (word_of_int k :: 32 word)" by simp
  also have "\<dots> = nat k" using k
    by (simp add: unat_eq_nat_uint uint_word_of_int take_bit_int_eq_self)
  finally show ?thesis by (simp add: shift_count_def)
qed

lemma js_add_jint: "\<bar>a + b\<bar> < 2 ^ 53 \<Longrightarrow> js_add (jint a) (jint b) = jint (a + b)"
  using round_double_int [of "a + b"] by (simp add: jint_def)

lemma js_sub_jint: "\<bar>a - b\<bar> < 2 ^ 53 \<Longrightarrow> js_sub (jint a) (jint b) = jint (a - b)"
  using round_double_int [of "a - b"] by (simp add: jint_def js_sub_def)

lemma sint_bounds32: "- (2 ^ 31) \<le> sint (w :: 32 word)" "sint (w :: 32 word) < 2 ^ 31"
  using sint_ge [of w] sint_lt [of w] by simp_all

lemma js_shl_jint: "0 \<le> k \<Longrightarrow> k < 32 \<Longrightarrow>
    js_shl (jint a) (jint k) = jint (sint (push_bit (nat k) (word_of_int a :: 32 word)))"
  by (simp add: js_shl_def shift_count_small of_int32_jint)

lemma js_ushr_jint: "0 \<le> k \<Longrightarrow> k < 32 \<Longrightarrow>
    js_ushr (jint a) (jint k) = jint (uint (drop_bit (nat k) (word_of_int a :: 32 word)))"
  by (simp add: js_ushr_def shift_count_small of_uint32_jint)

lemma js_and_jint: "js_and (jint a) (jint b) = jint (sint ((word_of_int a :: 32 word) AND word_of_int b))"
  by (simp add: js_and_def of_int32_jint)

lemma js_or_jint: "js_or (jint a) (jint b) = jint (sint ((word_of_int a :: 32 word) OR word_of_int b))"
  by (simp add: js_or_def of_int32_jint)

lemma js_not_jint: "js_not (jint a) = jint (sint (NOT (word_of_int a :: 32 word)))"
  by (simp add: js_not_def of_int32_jint)

lemma Number_digits_jint:
  "digits s \<Longrightarrow> dec_val s < 2 ^ 53 \<Longrightarrow> Number s = jint (int (dec_val s))"
  by (simp add: Number_digits jint_def)

lemma parseInt_digits_jint:
  "digits s \<Longrightarrow> dec_val s < 2 ^ 53 \<Longrightarrow> parseInt s = jint (int (dec_val s))"
  by (simp add: parseInt_digits jint_def)

lemma octets_value_bound:
  "a \<le> 255 \<Longrightarrow> b \<le> 255 \<Longrightarrow> c \<le> 255 \<Longrightarrow> d \<le> 255 \<Longrightarrow> octets_value a b c d < 2 ^ 32"
  by (simp add: octets_value_def)

lemma shl_octets:
  assumes "a \<le> 255" "b \<le> 255" "c \<le> 255" "d \<le> 255"
  shows "sint (push_bit 24 (word_of_nat a :: 32 word)) + sint (push_bit 16 (word_of_nat b :: 32 word))
       + sint (push_bit 8 (word_of_nat c :: 32 word)) + int d = signed32 (octets_value a b c d)"
proof -
  have pa: "push_bit 24 (word_of_nat a :: 32 word) = word_of_nat (a * 2 ^ 24)"
    by (simp add: push_bit_eq_mult)
  have pb: "push_bit 16 (word_of_nat b :: 32 word) = word_of_nat (b * 2 ^ 16)"
    by (simp add: push_bit_eq_mult)
  have pc: "push_bit 8 (word_of_nat c :: 32 word) = word_of_nat (c * 2 ^ 8)"
    by (simp add: push_bit_eq_mult)
  have "sint (word_of_nat (a * 2 ^ 24) :: 32 word) = signed32 (a * 2 ^ 24)"
    using assms by (intro sint_of_nat32) simp
  moreover have "sint (word_of_nat (b * 2 ^ 16) :: 32 word) = signed32 (b * 2 ^ 16)"
    using assms by (intro sint_of_nat32) simp
  moreover have "sint (word_of_nat (c * 2 ^ 8) :: 32 word) = signed32 (c * 2 ^ 8)"
    using assms by (intro sint_of_nat32) simp
  ultimately show ?thesis
    unfolding pa pb pc using assms by (simp add: signed32_def octets_value_def)
qed

lemma ipToNumber_parts:
  assumes sp: "split CHR ''.'' ip = [s1, s2, s3, s4]"
    and d: "digits s1" "digits s2" "digits s3" "digits s4"
    and b: "dec_val s1 \<le> 255" "dec_val s2 \<le> 255" "dec_val s3 \<le> 255" "dec_val s4 \<le> 255"
  shows "ipToNumber ip
       = jint (signed32 (octets_value (dec_val s1) (dec_val s2) (dec_val s3) (dec_val s4)))"
proof -
  have n: "Number s1 = jint (int (dec_val s1))" "Number s2 = jint (int (dec_val s2))"
    "Number s3 = jint (int (dec_val s3))" "Number s4 = jint (int (dec_val s4))"
    using d b by (auto intro!: Number_digits_jint)
  let ?A = "sint (push_bit 24 (word_of_nat (dec_val s1) :: 32 word))"
  let ?B = "sint (push_bit 16 (word_of_nat (dec_val s2) :: 32 word))"
  let ?C = "sint (push_bit 8 (word_of_nat (dec_val s3) :: 32 word))"
  have sh: "js_shl (jint (int (dec_val s1))) (jint 24) = jint ?A"
    "js_shl (jint (int (dec_val s2))) (jint 16) = jint ?B"
    "js_shl (jint (int (dec_val s3))) (jint 8) = jint ?C"
    by (simp_all add: js_shl_jint)
  have ab: "js_add (jint ?A) (jint ?B) = jint (?A + ?B)"
    using sint_bounds32 [of "push_bit 24 (word_of_nat (dec_val s1))"]
      sint_bounds32 [of "push_bit 16 (word_of_nat (dec_val s2))"]
    by (intro js_add_jint) simp
  have abc: "js_add (jint (?A + ?B)) (jint ?C) = jint (?A + ?B + ?C)"
    using sint_bounds32 [of "push_bit 24 (word_of_nat (dec_val s1))"]
      sint_bounds32 [of "push_bit 16 (word_of_nat (dec_val s2))"]
      sint_bounds32 [of "push_bit 8 (word_of_nat (dec_val s3))"]
    by (intro js_add_jint) simp
  have abcd: "js_add (jint (?A + ?B + ?C)) (jint (int (dec_val s4)))
      = jint (?A + ?B + ?C + int (dec_val s4))"
    using sint_bounds32 [of "push_bit 24 (word_of_nat (dec_val s1))"]
      sint_bounds32 [of "push_bit 16 (word_of_nat (dec_val s2))"]
      sint_bounds32 [of "push_bit 8 (word_of_nat (dec_val s3))"] b(4)
    by (intro js_add_jint) simp
  have na: "num_at [a0, a1, a2, a3] 0 = a0" "num_at [a0, a1, a2, a3] 1 = a1"
    "num_at [a0, a1, a2, a3] 2 = a2" "num_at [a0, a1, a2, a3] 3 = a3" for a0 a1 a2 a3
    by (simp_all add: num_at_def elem_at_def)
  have "ipToNumber ip = jint (?A + ?B + ?C + int (dec_val s4))"
    unfolding ipToNumber_def sp Let_def
    by (simp only: list.map na n Fin_numeral sh ab abc abcd)
  then show ?thesis using shl_octets [OF b] by simp
qed

lemma split_octets:
  assumes d: "digits s1" "digits s2" "digits s3" "digits s4"
  shows "split CHR ''.'' (s1 @ ''.'' @ s2 @ ''.'' @ s3 @ ''.'' @ s4) = [s1, s2, s3, s4]"
proof -
  have nd: "CHR ''.'' \<notin> set s1" "CHR ''.'' \<notin> set s2" "CHR ''.'' \<notin> set s3" "CHR ''.'' \<notin> set s4"
    using d by (auto dest: digits_set)
  then show ?thesis by (simp add: split_append split_no_sep)
qed

subsection \<open>Octets of a 32-bit value, printing and reading back\<close>

lemma octets_value_horner: "octets_value a b c d = ((a * 256 + b) * 256 + c) * 256 + d"
  by (simp add: octets_value_def)

lemma octets_decompose:
  assumes "n < 2 ^ 32"
  shows "octets_value (n div 2 ^ 24 mod 256) (n div 2 ^ 16 mod 256) (n div 2 ^ 8 mod 256) (n mod 256) = n"
proof -
  have a: "n div 2 ^ 24 mod 256 = n div 2 ^ 24" using assms by (simp add: less_mult_imp_div_less)
  have e: "n div 2 ^ 8 = n div 256" "n div 2 ^ 16 = n div 256 div 256"
    "n div 2 ^ 24 = n div 256 div 256 div 256"
    by (simp_all add: div_mult2_eq [symmetric])
  show ?thesis unfolding a unfolding octets_value_horner e
    by (simp only: div_mult_mod_eq)
qed

lemma div_mod_256: "d < 256 \<Longrightarrow> (x * 256 + d) div 256 = (x::nat)" "d < 256 \<Longrightarrow> (x * 256 + d) mod 256 = d"
  by simp_all

lemma octets_compose:
  assumes "a \<le> 255" "b \<le> 255" "c \<le> 255" "d \<le> 255"
  shows "octets_value a b c d div 2 ^ 24 mod 256 = a" "octets_value a b c d div 2 ^ 16 mod 256 = b"
    "octets_value a b c d div 2 ^ 8 mod 256 = c" "octets_value a b c d mod 256 = d"
proof -
  have l: "a < 256" "b < 256" "c < 256" "d < 256" using assms by simp_all
  have e: "n div 2 ^ 8 = n div 256" "n div 2 ^ 16 = n div 256 div 256"
    "n div 2 ^ 24 = n div 256 div 256 div 256" for n :: nat
    by (simp_all add: div_mult2_eq [symmetric])
  show "octets_value a b c d div 2 ^ 24 mod 256 = a" "octets_value a b c d div 2 ^ 16 mod 256 = b"
    "octets_value a b c d div 2 ^ 8 mod 256 = c" "octets_value a b c d mod 256 = d"
    unfolding e octets_value_horner by (simp_all only: div_mod_256 l mod_less)
qed

lemma unat_and_255: "unat ((w :: 32 word) AND 255) = unat w mod 256"
proof -
  have "(255 :: 32 word) = mask 8" by (simp add: mask_eq_exp_minus_1)
  then have "w AND 255 = take_bit 8 w" by (simp add: take_bit_eq_mask)
  then have "unat (w AND 255) = unat (take_bit 8 w)" by (simp only:)
  also have "\<dots> = take_bit 8 (unat w)" by (rule unsigned_take_bit_eq)
  also have "\<dots> = unat w mod 256" by (simp add: take_bit_eq_mod)
  finally show ?thesis .
qed

lemma unat_drop_bit32: "unat (drop_bit n (w :: 32 word)) = unat w div 2 ^ n"
proof -
  have "unat (drop_bit n w) = drop_bit n (unat w)" by (rule unat_drop_bit_eq)
  also have "\<dots> = unat w div 2 ^ n" by (rule drop_bit_eq_div)
  finally show ?thesis .
qed

lemma sint_small: "unat (w :: 32 word) < 2 ^ 31 \<Longrightarrow> sint w = int (unat w)"
proof -
  assume a: "unat w < 2 ^ 31"
  then have "unat w < 2 ^ 32" by simp
  then show ?thesis using sint_of_nat32 [of "unat w"] a by (simp add: signed32_def)
qed

lemma sint_signed32: "sint (w :: 32 word) = signed32 (unat w)"
proof -
  have "unat w < 2 ^ 32" using unsigned_less [of w] by simp
  then show ?thesis using sint_of_nat32 [of "unat w"] by simp
qed

lemma toString_nat:
  "n < 2 ^ 53 \<Longrightarrow> Number_toString (jint (int n)) = show_nat n"
  by (simp add: Number_toString_def jint_def)

lemma toString_octet:
  "Number_toString (jint (sint ((w :: 32 word) AND 255))) = show_nat (unat w mod 256)"
proof -
  have "unat (w AND 255) < 2 ^ 31" by (simp add: unat_and_255)
  then have "sint (w AND 255) = int (unat w mod 256)" by (simp add: sint_small unat_and_255)
  moreover have "unat w mod 256 < 2 ^ 53" by (rule less_trans [of _ 256]) simp_all
  ultimately show ?thesis by (simp add: toString_nat)
qed

lemma numberToIp_word:
  "numberToIp (jint k) =
     (let n = unat (word_of_int k :: 32 word)
      in show_nat (n div 2 ^ 24 mod 256) @ ''.'' @ show_nat (n div 2 ^ 16 mod 256) @ ''.'' @
         show_nat (n div 2 ^ 8 mod 256) @ ''.'' @ show_nat (n mod 256))"
proof -
  let ?W = "word_of_int k :: 32 word"
  have u: "js_ushr (jint k) (jint 24) = jint (uint (drop_bit 24 ?W))"
    "js_ushr (jint k) (jint 16) = jint (uint (drop_bit 16 ?W))"
    "js_ushr (jint k) (jint 8) = jint (uint (drop_bit 8 ?W))"
    by (simp_all add: js_ushr_jint)
  have a: "js_and (jint (uint w)) (jint 255) = jint (sint (w AND 255))" for w :: "32 word"
    by (simp add: js_and_jint word_of_int_uint)
  have a0: "js_and (jint k) (jint 255) = jint (sint (?W AND 255))"
    by (simp add: js_and_jint)
  show ?thesis
    unfolding numberToIp_def Fin_numeral u a a0
    by (simp add: toString_octet unat_drop_bit32 Let_def)
qed

lemma ipToNumber_numberToIp:
  "ipToNumber (numberToIp (jint k)) = jint (sint (word_of_int k :: 32 word))"
proof -
  let ?n = "unat (word_of_int k :: 32 word)"
  have n: "?n < 2 ^ 32" using unsigned_less [of "word_of_int k :: 32 word"] by simp
  let ?a = "?n div 2 ^ 24 mod 256" and ?b = "?n div 2 ^ 16 mod 256"
  let ?c = "?n div 2 ^ 8 mod 256" and ?d = "?n mod 256"
  have sp: "split CHR ''.'' (numberToIp (jint k)) = [show_nat ?a, show_nat ?b, show_nat ?c, show_nat ?d]"
    unfolding numberToIp_word Let_def by (rule split_octets) (rule show_nat_digits)+
  have "ipToNumber (numberToIp (jint k)) = jint (signed32 (octets_value ?a ?b ?c ?d))"
    using ipToNumber_parts [OF sp] by (simp add: show_nat_digits dec_val_show_nat)
  also have "octets_value ?a ?b ?c ?d = ?n" by (rule octets_decompose [OF n])
  finally show ?thesis by (simp add: sint_signed32)
qed

lemma join_split: "join [sep] (split sep s) = s"
proof (induction s)
  case Nil
  show ?case by simp
next
  case (Cons c cs)
  obtain p ps where r: "split sep cs = p # ps"
    using split_nonempty [of sep cs] by (cases "split sep cs") auto
  show ?case using Cons r by (cases ps) auto
qed

lemma digit_char_digit_val: "is_digit c \<Longrightarrow> digit_char (digit_val c) = c"
  by (simp add: is_digit_def digit_val_def)

lemma digit_val_less: "is_digit c \<Longrightarrow> digit_val c < 10"
  by (auto simp: is_digit_def digit_val_def)

lemma digit_val_pos: "is_digit c \<Longrightarrow> c \<noteq> CHR ''0'' \<Longrightarrow> 0 < digit_val c"
proof -
  assume d: "is_digit c" and n: "c \<noteq> CHR ''0''"
  have "of_char c \<noteq> (48 :: nat)"
  proof
    assume "of_char c = (48 :: nat)"
    also have "(48 :: nat) = of_char CHR ''0''" by simp
    finally have "c = CHR ''0''" by (simp only: of_char_eq_iff)
    then show False using n by simp
  qed
  then show ?thesis using d by (simp add: is_digit_def digit_val_def)
qed

lemma show_nat_dec_val_nz:
  "digits s \<Longrightarrow> hd s \<noteq> CHR ''0'' \<Longrightarrow> 0 < dec_val s \<and> show_nat (dec_val s) = s"
proof (induction s rule: rev_induct)
  case Nil
  then show ?case by (simp add: digits_def)
next
  case (snoc c xs)
  have c: "is_digit c" using snoc.prems(1) by (simp add: digits_def)
  show ?case
  proof (cases "xs = []")
    case True
    then have "c \<noteq> CHR ''0''" using snoc.prems(2) by simp
    then have "0 < digit_val c" by (rule digit_val_pos [OF c])
    moreover have "show_nat (digit_val c) = [c]"
      using digit_val_less [OF c] digit_char_digit_val [OF c]
      by (subst show_nat.simps) (simp del: digit_char.simps)
    ultimately show ?thesis using True by (simp add: dec_val_def)
  next
    case False
    then have "digits xs" "hd xs \<noteq> CHR ''0''"
      using snoc.prems by (simp_all add: digits_def)
    then have ih: "0 < dec_val xs" "show_nat (dec_val xs) = xs" using snoc.IH by simp_all
    have v: "dec_val (xs @ [c]) = 10 * dec_val xs + digit_val c" by (rule dec_val_snoc)
    have "\<not> dec_val (xs @ [c]) < 10" using ih(1) v by simp
    then have "show_nat (dec_val (xs @ [c]))
        = show_nat (dec_val (xs @ [c]) div 10) @ [digit_char (dec_val (xs @ [c]) mod 10)]"
      by (subst show_nat.simps) (simp del: digit_char.simps)
    also have "dec_val (xs @ [c]) div 10 = dec_val xs" using digit_val_less [OF c] v by simp
    also have "dec_val (xs @ [c]) mod 10 = digit_val c" using digit_val_less [OF c] v by simp
    finally show ?thesis using ih v digit_char_digit_val [OF c] by (simp del: digit_char.simps)
  qed
qed

lemma show_nat_0: "show_nat 0 = ''0''"
proof -
  have "char_of (of_char CHR ''0'' :: nat) = CHR ''0''" by (rule char_of_char)
  then show ?thesis by (subst show_nat.simps) simp
qed

lemma show_nat_dec_val: "canonical_octet s \<Longrightarrow> show_nat (dec_val s) = s"
  unfolding canonical_octet_def
  using show_nat_dec_val_nz [of s] by (auto simp: dec_val_def digit_val_def show_nat_0)

lemma word_of_int_signed32: "(word_of_int (signed32 v) :: 32 word) = word_of_nat v"
proof -
  have "(word_of_int (int v - 2 ^ 32) :: 32 word) = word_of_int (int v)"
    by (simp add: word_of_int_eq_iff take_bit_eq_mod)
  then show ?thesis by (simp add: signed32_def)
qed

lemma numberToIp_ipToNumber_parts:
  assumes sp: "split CHR ''.'' ip = [s1, s2, s3, s4]"
    and c: "canonical_octet s1" "canonical_octet s2" "canonical_octet s3" "canonical_octet s4"
  shows "numberToIp (ipToNumber ip) = ip"
proof -
  let ?a = "dec_val s1" and ?b = "dec_val s2" and ?c = "dec_val s3" and ?d = "dec_val s4"
  let ?V = "octets_value ?a ?b ?c ?d"
  have d: "digits s1" "digits s2" "digits s3" "digits s4"
    and b: "?a \<le> 255" "?b \<le> 255" "?c \<le> 255" "?d \<le> 255"
    using c by (simp_all add: canonical_octet_def)
  have i: "ipToNumber ip = jint (signed32 ?V)" by (rule ipToNumber_parts [OF sp d b])
  have V: "?V < 2 ^ 32" by (rule octets_value_bound [OF b])
  have u: "unat (word_of_int (signed32 ?V) :: 32 word) = ?V"
    using V by (simp add: word_of_int_signed32 unat_of_nat)
  have "numberToIp (ipToNumber ip) = s1 @ ''.'' @ s2 @ ''.'' @ s3 @ ''.'' @ s4"
    unfolding i numberToIp_word u Let_def
    by (simp only: octets_compose [OF b] show_nat_dec_val [OF c(1)] show_nat_dec_val [OF c(2)]
        show_nat_dec_val [OF c(3)] show_nat_dec_val [OF c(4)])
  also have "\<dots> = join ''.'' (split CHR ''.'' ip)" unfolding sp by simp
  also have "\<dots> = ip" by (rule join_split)
  finally show ?thesis .
qed

section \<open>The CIDR engine on valid input\<close>

lemma and_not_mask_push_drop:
  "(w :: 32 word) AND push_bit k (- 1) = push_bit k (drop_bit k w)"
  by (rule bit_eqI) (auto simp add: bit_simps)

lemma unat_mask32: "k \<le> 32 \<Longrightarrow> unat (mask k :: 32 word) = 2 ^ k - 1"
proof -
  assume k: "k \<le> 32"
  have "uint (mask k :: 32 word) = mask k" using k by (simp add: uint_mask_eq min_def)
  then have "int (unat (mask k :: 32 word)) = 2 ^ k - 1" by (simp add: mask_eq_exp_minus_1)
  then show ?thesis by (simp add: of_nat_diff nat_int_comparison(1))
qed

lemma block_top: 
  assumes "n < 2 ^ 32" "k \<le> 32"
  shows "n div 2 ^ k * 2 ^ k + 2 ^ k \<le> (2 :: nat) ^ 32"
proof -
  have e: "(2 :: nat) ^ 32 = 2 ^ (32 - k) * 2 ^ k" using assms(2) by (simp flip: power_add)
  have "n div 2 ^ k < 2 ^ (32 - k)" using assms(1) unfolding e by (simp add: less_mult_imp_div_less)
  then have "n div 2 ^ k + 1 \<le> 2 ^ (32 - k)" by simp
  then have "(n div 2 ^ k + 1) * 2 ^ k \<le> 2 ^ (32 - k) * 2 ^ k" by (rule mult_le_mono1)
  then show ?thesis unfolding e by (simp add: algebra_simps)
qed

lemma unat_network:
  assumes "k \<le> 32"
  shows "unat ((w :: 32 word) AND push_bit k (- 1)) = unat w div 2 ^ k * 2 ^ k"
proof -
  have "unat (push_bit k (drop_bit k w)) = take_bit 32 (push_bit k (unat (drop_bit k w)))"
    by (simp add: unsigned_push_bit_eq)
  also have "\<dots> = take_bit 32 (unat w div 2 ^ k * 2 ^ k)"
    by (simp add: unat_drop_bit32 push_bit_eq_mult)
  also have "\<dots> = unat w div 2 ^ k * 2 ^ k"
  proof (rule take_bit_nat_eq_self)
    have "unat w div 2 ^ k * 2 ^ k \<le> unat w" by simp
    also have "\<dots> < 2 ^ 32" using unsigned_less [of w] by simp
    finally show "unat w div 2 ^ k * 2 ^ k < 2 ^ 32" .
  qed
  finally show ?thesis by (simp only: and_not_mask_push_drop)
qed

lemma unat_broadcast:
  assumes "k \<le> 32"
  shows "unat (((w :: 32 word) AND push_bit k (- 1)) OR NOT (push_bit k (- 1)))
       = unat w div 2 ^ k * 2 ^ k + 2 ^ k - 1"
proof -
  let ?N = "w AND push_bit k (- 1)"
  have m: "NOT (push_bit k (- 1) :: 32 word) = mask k"
    by (simp add: push_bit_minus_one_eq_not_mask)
  have z: "?N AND mask k = 0" by (rule bit_eqI) (auto simp add: bit_simps)
  have "?N OR mask k = ?N + mask k" by (rule disjunctive_add_eq_or [OF z, symmetric])
  moreover have "unat (?N + mask k) = unat ?N + unat (mask k :: 32 word)"
  proof -
    have "unat w < 2 ^ 32" using unsigned_less [of w] by simp
    then have "unat w div 2 ^ k * 2 ^ k + 2 ^ k \<le> 2 ^ 32" using assms by (rule block_top)
    moreover have "(0 :: nat) < 2 ^ k" by simp
    ultimately have "unat ?N + unat (mask k :: 32 word) < 2 ^ LENGTH(32)"
      unfolding unat_network [OF assms] unat_mask32 [OF assms] by simp
    then show ?thesis by (simp only: unat_add_lem)
  qed
  ultimately have "unat (?N OR mask k) = unat ?N + unat (mask k :: 32 word)" by (simp only:)
  also have "\<dots> = unat w div 2 ^ k * 2 ^ k + (2 ^ k - 1)"
    by (simp only: unat_network [OF assms] unat_mask32 [OF assms])
  finally show ?thesis unfolding m by simp
qed

lemma same_half:
  assumes "k \<le> 31"
  shows "(n div 2 ^ k * 2 ^ k + 2 ^ k - 1 < 2 ^ 31) = (n div 2 ^ k * 2 ^ k < (2 :: nat) ^ 31)"
proof
  assume "n div 2 ^ k * 2 ^ k + 2 ^ k - 1 < 2 ^ 31"
  moreover have "(0 :: nat) < 2 ^ k" by simp
  ultimately show "n div 2 ^ k * 2 ^ k < (2 :: nat) ^ 31" by linarith
next
  assume a: "n div 2 ^ k * 2 ^ k < (2 :: nat) ^ 31"
  have e: "(2 :: nat) ^ 31 = 2 ^ (31 - k) * 2 ^ k" using assms by (simp flip: power_add)
  have "n div 2 ^ k < 2 ^ (31 - k)" using a unfolding e by simp
  then have "n div 2 ^ k + 1 \<le> 2 ^ (31 - k)" by simp
  then have "(n div 2 ^ k + 1) * 2 ^ k \<le> 2 ^ (31 - k) * 2 ^ k" by (rule mult_le_mono1)
  then have "n div 2 ^ k * 2 ^ k + 2 ^ k \<le> 2 ^ 31" unfolding e by (simp add: algebra_simps)
  moreover have "(0 :: nat) < 2 ^ k" by simp
  ultimately show "n div 2 ^ k * 2 ^ k + 2 ^ k - 1 < 2 ^ 31" by linarith
qed

lemma js_le_jint [simp]: "js_le (jint a) (jint b) = (a \<le> b)"
  by (simp add: jint_def)

lemma js_ge_jint [simp]: "js_ge (jint a) (jint b) = (b \<le> a)"
  by (simp add: jint_def js_ge_def)

lemma spec_valid_parts:
  assumes "spec_isValidCIDR c"
  obtains ip pfx s1 s2 s3 s4 where
    "split CHR ''/'' c = [ip, pfx]" "split CHR ''.'' ip = [s1, s2, s3, s4]"
    "digits s1" "digits s2" "digits s3" "digits s4"
    "dec_val s1 \<le> 255" "dec_val s2 \<le> 255" "dec_val s3 \<le> 255" "dec_val s4 \<le> 255"
    "digits pfx" "8 \<le> dec_val pfx" "dec_val pfx \<le> 32"
proof -
  from assms have l: "length (split CHR ''/'' c) = 2" by (simp add: spec_isValidCIDR_def Let_def)
  then obtain ip pfx where sp: "split CHR ''/'' c = [ip, pfx]"
    by (auto simp: length_Suc_conv numeral_eq_Suc)
  from assms sp have v: "spec_isValidIP ip" and p: "digits pfx" "8 \<le> dec_val pfx" "dec_val pfx \<le> 32"
    by (simp_all add: spec_isValidCIDR_def)
  from v have "length (split CHR ''.'' ip) = 4" by (simp add: spec_isValidIP_def Let_def)
  then obtain s1 s2 s3 s4 where si: "split CHR ''.'' ip = [s1, s2, s3, s4]"
    by (auto simp: length_Suc_conv numeral_eq_Suc)
  from v si have dd: "digits s1" "digits s2" "digits s3" "digits s4"
    "dec_val s1 \<le> 255" "dec_val s2 \<le> 255" "dec_val s3 \<le> 255" "dec_val s4 \<le> 255"
    by (simp_all add: spec_isValidIP_def)
  show ?thesis by (rule that [OF sp si dd p])
qed

lemma parseCIDR_valid:
  assumes "spec_isValidCIDR c"
  shows "ipToNumber (networkAddress (parseCIDR c)) = jint (signed32 (block_network c))"
    and "ipToNumber (broadcastAddress (parseCIDR c)) = jint (signed32 (block_broadcast c))"
    and "cidr_info.totalIps (parseCIDR c) = jint (2 ^ (32 - cidr_prefix c))"
    and "prefix (parseCIDR c) = jint (int (cidr_prefix c))"
proof -
  from assms obtain ip pfx s1 s2 s3 s4 where
    sp: "split CHR ''/'' c = [ip, pfx]" and si: "split CHR ''.'' ip = [s1, s2, s3, s4]"
    and d: "digits s1" "digits s2" "digits s3" "digits s4"
    and b: "dec_val s1 \<le> 255" "dec_val s2 \<le> 255" "dec_val s3 \<le> 255" "dec_val s4 \<le> 255"
    and p: "digits pfx" "8 \<le> dec_val pfx" "dec_val pfx \<le> 32"
    by (rule spec_valid_parts)
  let ?V = "octets_value (dec_val s1) (dec_val s2) (dec_val s3) (dec_val s4)"
  let ?p = "dec_val pfx"
  let ?k = "32 - ?p"
  let ?W = "word_of_nat ?V :: 32 word"
  let ?M = "push_bit ?k (- 1) :: 32 word"
  let ?N = "?W AND ?M"
  let ?B = "?N OR NOT ?M"
  have V: "?V < 2 ^ 32" by (rule octets_value_bound [OF b])
  have k: "?k \<le> 32" by simp
  have cv: "cidr_ip_value c = ?V" by (simp add: cidr_ip_value_def sp si)
  have cp: "cidr_prefix c = ?p" by (simp add: cidr_prefix_def sp)
  have pr: "parseInt_opt (elem_at [ip, pfx] 1) = jint (int ?p)"
    using p by (simp add: parseInt_opt_def elem_at_def parseInt_digits_jint)
  have ipn: "ipToNumber ip = jint (signed32 ?V)" by (rule ipToNumber_parts [OF si d b])
  have sub: "js_sub (jint 32) (jint (int ?p)) = jint (int ?k)"
    using p by (subst js_sub_jint) (simp_all add: of_nat_diff)
  have shl: "js_shl (jint (- 1)) (jint (int ?k)) = jint (sint ?M)"
  proof -
    have "js_shl (jint (- 1)) (jint (int ?k))
        = jint (sint (push_bit (nat (int ?k)) (word_of_int (- 1) :: 32 word)))"
      using p by (intro js_shl_jint) simp_all
    then show ?thesis by (simp only: nat_int of_int_minus of_int_1)
  qed
  have mask: "js_ushr (jint (sint ?M)) (jint 0) = jint (uint ?M)"
    by (subst js_ushr_jint) simp_all
  have a: "js_and (jint (signed32 ?V)) (jint (uint ?M)) = jint (sint ?N)"
    by (simp only: js_and_jint word_of_int_signed32 word_of_int_uint)
  have net: "js_ushr (jint (sint ?N)) (jint 0) = jint (uint ?N)"
    by (subst js_ushr_jint) simp_all
  have nt: "js_not (jint (uint ?M)) = jint (sint (NOT ?M))"
    by (simp only: js_not_jint word_of_int_uint)
  have o: "js_or (jint (uint ?N)) (jint (sint (NOT ?M))) = jint (sint ?B)"
    by (simp only: js_or_jint word_of_int_uint word_of_int_sint32)
  have bc: "js_ushr (jint (sint ?B)) (jint 0) = jint (uint ?B)"
    by (subst js_ushr_jint) simp_all
  have na: "networkAddress (parseCIDR c) = numberToIp (jint (uint ?N))"
    and ba: "broadcastAddress (parseCIDR c) = numberToIp (jint (uint ?B))"
    and pf: "prefix (parseCIDR c) = jint (int ?p)"
    and tot: "cidr_info.totalIps (parseCIDR c) = Math_pow2 (jint (int ?k))"
    unfolding parseCIDR_def sp Let_def
    by (simp_all only: nth_Cons_0 pr ipn Fin_numeral sub shl mask a net nt o bc cidr_info.simps)
  have uN: "unat ?N = block_network c"
    using V by (simp only: unat_network [OF k] block_network_def cv cp unat_of_nat) simp
  have uB: "unat ?B = block_broadcast c"
    using V by (simp only: unat_broadcast [OF k] block_broadcast_def block_network_def cv cp unat_of_nat)
      simp
  show "ipToNumber (networkAddress (parseCIDR c)) = jint (signed32 (block_network c))"
    unfolding na ipToNumber_numberToIp by (simp only: word_of_int_uint sint_signed32 uN)
  show "ipToNumber (broadcastAddress (parseCIDR c)) = jint (signed32 (block_broadcast c))"
    unfolding ba ipToNumber_numberToIp by (simp only: word_of_int_uint sint_signed32 uB)
  show "prefix (parseCIDR c) = jint (int (cidr_prefix c))" unfolding pf cp ..
  have "Math_pow2 (jint (int ?k)) = jint (2 ^ ?k)"
  proof -
    have "(2 :: int) ^ ?k \<le> 2 ^ 32" by (rule power_increasing) simp_all
    then have "\<bar>(2 :: int) ^ ?k\<bar> < 2 ^ 53" by simp
    then have "round_double (of_int (2 ^ ?k)) = Fin (of_int (2 ^ ?k))" by (rule round_double_int)
    then show ?thesis by (simp add: jint_def pow2_def)
  qed
  then show "cidr_info.totalIps (parseCIDR c) = jint (2 ^ (32 - cidr_prefix c))"
    unfolding tot cp .
qed

lemma block_bounds:
  assumes "spec_isValidCIDR c"
  shows "block_network c \<le> block_broadcast c" "block_broadcast c < 2 ^ 32"
    "(block_broadcast c < 2 ^ 31) = (block_network c < 2 ^ 31)"
proof -
  from assms obtain ip pfx s1 s2 s3 s4 where
    sp: "split CHR ''/'' c = [ip, pfx]" and si: "split CHR ''.'' ip = [s1, s2, s3, s4]"
    and d: "digits s1" "digits s2" "digits s3" "digits s4"
    and b: "dec_val s1 \<le> 255" "dec_val s2 \<le> 255" "dec_val s3 \<le> 255" "dec_val s4 \<le> 255"
    and p: "digits pfx" "8 \<le> dec_val pfx" "dec_val pfx \<le> 32"
    by (rule spec_valid_parts)
  have V: "cidr_ip_value c < 2 ^ 32"
    using octets_value_bound [OF b] by (simp add: cidr_ip_value_def sp si)
  have cp: "cidr_prefix c = dec_val pfx" by (simp add: cidr_prefix_def sp)
  have pos: "(0 :: nat) < 2 ^ (32 - cidr_prefix c)" by simp
  show "block_network c \<le> block_broadcast c"
    using pos unfolding block_broadcast_def by linarith
  have "block_network c + 2 ^ (32 - cidr_prefix c) \<le> 2 ^ 32"
    unfolding block_network_def by (rule block_top [OF V]) simp
  then show "block_broadcast c < 2 ^ 32"
    using pos unfolding block_broadcast_def by linarith
  have "32 - cidr_prefix c \<le> 31" using p cp by simp
  then show "(block_broadcast c < 2 ^ 31) = (block_network c < 2 ^ 31)"
    unfolding block_broadcast_def block_network_def by (rule same_half)
qed

lemma cidrsOverlap_valid:
  assumes a: "spec_isValidCIDR a" and b: "spec_isValidCIDR b"
  shows "cidrsOverlap a b
     = (block_network a \<le> block_broadcast b \<and> block_network b \<le> block_broadcast a)"
proof -
  have "cidrsOverlap a b
     = (signed32 (block_network a) \<le> signed32 (block_broadcast b)
        \<and> signed32 (block_network b) \<le> signed32 (block_broadcast a))"
    unfolding cidrsOverlap_def Let_def
    by (simp only: parseCIDR_valid [OF a] parseCIDR_valid [OF b] js_le_jint js_ge_jint)
  also have "\<dots> = (block_network a \<le> block_broadcast b \<and> block_network b \<le> block_broadcast a)"
    using block_bounds [OF a] block_bounds [OF b]
    by (auto simp: signed32_def)
  finally show ?thesis .
qed

lemma isChildOfParent_valid:
  assumes a: "spec_isValidCIDR a" and b: "spec_isValidCIDR b"
  shows "isChildOfParent a b
     = (block_network b \<le> block_network a \<and> block_broadcast a \<le> block_broadcast b)"
proof -
  have "isChildOfParent a b
     = (signed32 (block_network b) \<le> signed32 (block_network a)
        \<and> signed32 (block_broadcast a) \<le> signed32 (block_broadcast b))"
    unfolding isChildOfParent_def Let_def
    by (simp only: parseCIDR_valid [OF a] parseCIDR_valid [OF b] js_le_jint js_ge_jint)
  also have "\<dots> = (block_network b \<le> block_network a \<and> block_broadcast a \<le> block_broadcast b)"
    using block_bounds [OF a] block_bounds [OF b]
    by (auto simp: signed32_def)
  finally show ?thesis .
qed

lemma parseInt_prefix:
  assumes d: "digits ds" and r: "rest = [] \<or> \<not> is_digit (hd rest)" and b: "dec_val ds < 2 ^ 53"
  shows "parseInt (ds @ rest) = jint (int (dec_val ds))"
proof -
  have ne: "ds \<noteq> []" using d by (simp add: digits_def)
  have h: "hd ds \<noteq> CHR ''-''" "hd ds \<noteq> CHR ''+''" "\<not> is_ws (hd ds)"
    using digits_hd [OF d] by (auto dest: is_digit_not_ws)
  have dw: "dropWhile is_ws (ds @ rest) = ds @ rest" using ne h(3) by (cases ds) auto
  have tw: "takeWhile is_digit (ds @ rest) = ds"
  proof -
    have "takeWhile is_digit rest = []" using r by (cases rest) auto
    moreover have "\<forall>c \<in> set ds. is_digit c" using d by (simp add: digits_def list_all_iff)
    ultimately show ?thesis by (simp add: takeWhile_append2)
  qed
  show ?thesis
    unfolding parseInt_def Let_def dw
    using ne h round_double_nat [OF b] by (simp add: tw jint_def)
qed

lemma isValidIp_parts:
  assumes sp: "split CHR ''.'' ip = [s1, s2, s3, s4]"
    and n: "parseInt s1 = jint a" "parseInt s2 = jint b" "parseInt s3 = jint c" "parseInt s4 = jint d"
  shows "isValidIp ip = (0 \<le> a \<and> a \<le> 255 \<and> 0 \<le> b \<and> b \<le> 255 \<and> 0 \<le> c \<and> c \<le> 255 \<and> 0 \<le> d \<and> d \<le> 255)"
  unfolding isValidIp_def sp Let_def
  by (simp add: n Fin_numeral del: js_le.simps) (auto simp: jint_def)

lemma isValidCIDR_parts:
  assumes sp: "split CHR ''/'' c = [ip, pfx]" and n: "parseInt pfx = jint p"
  shows "isValidCIDR c = (isValidIp ip \<and> 8 \<le> p \<and> p \<le> 32)"
  unfolding isValidCIDR_def sp Let_def
  by (simp add: n Fin_numeral del: js_le.simps) (auto simp: jint_def)

lemma isValidCIDR_of_spec:
  assumes "spec_isValidCIDR c"
  shows "isValidCIDR c"
proof -
  from assms obtain ip pfx s1 s2 s3 s4 where
    sp: "split CHR ''/'' c = [ip, pfx]" and si: "split CHR ''.'' ip = [s1, s2, s3, s4]"
    and d: "digits s1" "digits s2" "digits s3" "digits s4"
    and b: "dec_val s1 \<le> 255" "dec_val s2 \<le> 255" "dec_val s3 \<le> 255" "dec_val s4 \<le> 255"
    and p: "digits pfx" "8 \<le> dec_val pfx" "dec_val pfx \<le> 32"
    by (rule spec_valid_parts)
  have n: "parseInt s1 = jint (int (dec_val s1))" "parseInt s2 = jint (int (dec_val s2))"
    "parseInt s3 = jint (int (dec_val s3))" "parseInt s4 = jint (int (dec_val s4))"
    "parseInt pfx = jint (int (dec_val pfx))"
    using d b p by (auto intro!: parseInt_digits_jint)
  show ?thesis
    using b p by (simp add: isValidCIDR_parts [OF sp n(5)] isValidIp_parts [OF si n(1-4)])
qed

lemma split_slash_ex: "split CHR ''/'' ''10.0.0.0/24abc'' = [''10.0.0.0'', ''24abc'']"
  by simp

lemma digits_simps:
  "digits (c # cs) = (is_digit c \<and> list_all is_digit cs)"
  by (simp add: digits_def)

lemma valid_examples:
  "spec_isValidCIDR ''200.0.0.0/24''" "spec_isValidCIDR ''200.0.0.128/25''"
  "spec_isValidCIDR ''10.0.0.0/8''" "spec_isValidCIDR ''200.0.1.0/24''"
  by (simp_all add: spec_isValidCIDR_def spec_isValidIP_def digits_simps is_digit_def dec_val_def
      digit_val_def)

lemma block_examples:
  "block_network ''200.0.0.0/24'' = 3355443200" "block_broadcast ''200.0.0.0/24'' = 3355443455"
  "block_network ''200.0.0.128/25'' = 3355443328" "block_broadcast ''200.0.0.128/25'' = 3355443455"
  "block_network ''10.0.0.0/8'' = 167772160" "block_broadcast ''10.0.0.0/8'' = 184549375"
  "block_network ''200.0.1.0/24'' = 3355443456" "block_broadcast ''200.0.1.0/24'' = 3355443711"
  by (simp_all add: block_network_def block_broadcast_def cidr_ip_value_def cidr_prefix_def
      octets_value_def dec_val_def digit_val_def)

section \<open>Building the pool tree\<close>

subsection \<open>Stores of the same shape\<close>

lemma same_shape_refl [simp]: "same_shape m m"
  by (simp add: same_shape_def)

lemma same_shape_sym: "same_shape a b \<Longrightarrow> same_shape b a"
  by (simp add: same_shape_def)

lemma same_shape_trans: "same_shape a b \<Longrightarrow> same_shape b c \<Longrightarrow> same_shape a c"
  by (simp add: same_shape_def)

lemma same_shape_upd:
  "m k = Some nd \<Longrightarrow> same_shape m (m(k \<mapsto> nd\<lparr>usedIps := u\<rparr>))"
  by (simp add: same_shape_def)

lemma same_shape_None: "same_shape m m' \<Longrightarrow> (m' k = None) = (m k = None)"
proof -
  assume "same_shape m m'"
  then have "map_option (\<lambda>n. (children n, totalIps n)) (m' k)
      = map_option (\<lambda>n. (children n, totalIps n)) (m k)"
    by (simp add: same_shape_def)
  then show ?thesis by (cases "m k"; cases "m' k"; simp)
qed

lemma same_shape_dom: "same_shape m m' \<Longrightarrow> dom m' = dom m"
  by (auto simp: dom_def same_shape_None)

lemma same_shape_Some:
  assumes "same_shape m m'" "m k = Some nd"
  obtains nd' where "m' k = Some nd'" "children nd' = children nd" "totalIps nd' = totalIps nd"
proof -
  from assms have "map_option (\<lambda>n. (children n, totalIps n)) (m' k) = Some (children nd, totalIps nd)"
    by (simp add: same_shape_def)
  then obtain nd' where "m' k = Some nd'" "(children nd', totalIps nd') = (children nd, totalIps nd)"
    by (auto simp: map_option_eq_Some)
  then show ?thesis using that by simp
qed

lemma same_shape_tot: "same_shape m m' \<Longrightarrow> total_of m' = total_of m"
proof
  fix c assume s: "same_shape m m'"
  show "total_of m' c = total_of m c"
  proof (cases "m c")
    case None
    then show ?thesis using same_shape_None [OF s, of c] by (simp add: total_of_def)
  next
    case (Some nd)
    from s Some obtain nd' where "m' c = Some nd'" "totalIps nd' = totalIps nd"
      by (rule same_shape_Some)
    then show ?thesis using Some by (simp add: total_of_def)
  qed
qed

lemma same_shape_children_total: "same_shape m m' \<Longrightarrow> children_total m' = children_total m"
  by (rule ext) (simp add: children_total_def same_shape_tot)

lemma same_shape_path: "down_path m k cs \<Longrightarrow> same_shape m m' \<Longrightarrow> down_path m' k cs"
proof (induction rule: down_path.induct)
  case (path_Nil k)
  show ?case by (rule down_path.path_Nil)
next
  case (path_Cons k nd c cs)
  from path_Cons.prems path_Cons.hyps(1) obtain nd' where "m' k = Some nd'" "children nd' = children nd"
    by (rule same_shape_Some)
  then show ?case using path_Cons by (auto intro: down_path.path_Cons)
qed

lemma same_shape_bounded: "same_shape m m' \<Longrightarrow> depth_below m' k n = depth_below m k n"
proof -
  assume s: "same_shape m m'"
  have "down_path m' k cs = down_path m k cs" for cs
    using same_shape_path [OF _ s] same_shape_path [OF _ same_shape_sym [OF s]] by blast
  then show ?thesis by (simp add: depth_below_def)
qed

lemma same_shape_closed: "same_shape m m' \<Longrightarrow> refs_closed m \<Longrightarrow> refs_closed m'"
proof -
  assume s: "same_shape m m'" and c: "refs_closed m"
  show "refs_closed m'"
    unfolding refs_closed_def
  proof (intro allI impI)
    fix k nd' assume "m' k = Some nd'"
    with same_shape_sym [OF s] obtain nd where n: "m k = Some nd" "children nd = children nd'"
      by (rule same_shape_Some)
    have "set (children nd) \<subseteq> dom m" using c n(1) unfolding refs_closed_def by blast
    then show "set (children nd') \<subseteq> dom m'"
      by (simp add: n(2) same_shape_dom [OF s])
  qed
qed

lemma same_shape_forest: "same_shape m m' \<Longrightarrow> forest m' rs = forest m rs"
proof -
  have "k \<in> forest a rs \<Longrightarrow> same_shape a b \<Longrightarrow> k \<in> forest b rs" for a b k
  proof (induction rule: forest.induct)
    case (root k)
    then show ?case by (simp add: forest.root)
  next
    case (child k nd c)
    from child.prems child.hyps(2) obtain nd' where n: "b k = Some nd'" "children nd' = children nd"
      by (rule same_shape_Some)
    have "k \<in> forest b rs" using child by simp
    then show ?case using n child.hyps(3) by (simp add: forest.child [of k b rs nd' c])
  qed
  from this [of _ m m'] this [of _ m' m]
  show "same_shape m m' \<Longrightarrow> forest m' rs = forest m rs"
    using same_shape_sym [of m m'] by blast
qed

lemma good_same_shape_upd:
  assumes g: "usedIps_direct m x" and nd: "m k = Some nd" and u: "x = k \<longrightarrow> u = usedIps nd"
  shows "usedIps_direct (m(k \<mapsto> nd\<lparr>usedIps := u\<rparr>)) x"
proof -
  have s: "same_shape m (m(k \<mapsto> nd\<lparr>usedIps := u\<rparr>))" using nd by (rule same_shape_upd)
  show ?thesis
    using g nd u unfolding usedIps_direct_def same_shape_children_total [OF s]
    by (auto split: option.splits)
qed

subsection \<open>The forest below a set of roots\<close>

lemma forest_Cons: "forest m (r # rs) = forest m [r] \<union> forest m rs"
proof -
  have a: "k \<in> forest m (r # rs) \<Longrightarrow> k \<in> forest m [r] \<union> forest m rs" for k
    by (induction rule: forest.induct) (auto intro: forest.intros)
  have b: "k \<in> forest m [r] \<Longrightarrow> k \<in> forest m (r # rs)" for k
    by (induction rule: forest.induct) (auto intro: forest.intros)
  have c: "k \<in> forest m rs \<Longrightarrow> k \<in> forest m (r # rs)" for k
    by (induction rule: forest.induct) (auto intro: forest.intros)
  show ?thesis using a b c by blast
qed

lemma forest_Nil [simp]: "forest m [] = {}"
proof -
  have "k \<in> forest m [] \<Longrightarrow> False" for k
    by (induction rule: forest.induct) auto
  then show ?thesis by blast
qed

lemma forest_set: "forest m rs = (\<Union>r \<in> set rs. forest m [r])"
proof (induction rs)
  case Nil
  show ?case by simp
next
  case (Cons a rs)
  show ?case using Cons forest_Cons [of m a rs] by simp
qed

lemma forest_node:
  assumes "m k = Some nd"
  shows "forest m [k] = insert k (forest m (children nd))"
proof -
  have a: "x \<in> forest m [k] \<Longrightarrow> x \<in> insert k (forest m (children nd))" for x
  proof (induction rule: forest.induct)
    case (root x)
    then show ?case by simp
  next
    case (child x ndx c)
    then show ?case using assms by (auto intro: forest.intros)
  qed
  have b: "x \<in> forest m (children nd) \<Longrightarrow> x \<in> forest m [k]" for x
  proof (induction rule: forest.induct)
    case (root x)
    have "k \<in> forest m [k]" by (simp add: forest.root)
    then show ?case using assms root by (rule forest.child)
  next
    case (child x ndx c)
    then show ?case by (simp add: forest.child [of x m "[k]" ndx c])
  qed
  have c: "k \<in> forest m [k]" by (simp add: forest.root)
  show ?thesis using a b c by blast
qed

lemma post_refl [simp]: "calc_post m m"
  by (simp add: calc_post_def)

lemma post_trans: "calc_post a b \<Longrightarrow> calc_post b c \<Longrightarrow> calc_post a c"
  unfolding calc_post_def using same_shape_trans by blast

lemma post_upd:
  assumes nd: "m k = Some nd" and u: "usedIps_direct m k \<longrightarrow> u = usedIps nd"
  shows "calc_post m (m(k \<mapsto> nd\<lparr>usedIps := u\<rparr>))"
  unfolding calc_post_def
proof (intro conjI allI impI)
  show "same_shape m (m(k \<mapsto> nd\<lparr>usedIps := u\<rparr>))" using nd by (rule same_shape_upd)
next
  fix x assume g: "usedIps_direct m x"
  show "usedIps_direct (m(k \<mapsto> nd\<lparr>usedIps := u\<rparr>)) x"
    using g nd by (rule good_same_shape_upd) (use g u in auto)
qed

lemma good_upd_self:
  assumes nd: "m k = Some nd" and u: "u = children_total m (children nd)"
  shows "usedIps_direct (m(k \<mapsto> nd\<lparr>usedIps := u\<rparr>)) k"
proof -
  have s: "same_shape m (m(k \<mapsto> nd\<lparr>usedIps := u\<rparr>))" using nd by (rule same_shape_upd)
  show ?thesis unfolding usedIps_direct_def same_shape_children_total [OF s] using u by simp
qed

lemma calc_correct:
  "calculateUsedIps n m k = Some (Inr (u, m')) \<Longrightarrow>
     calc_post m m' \<and> (\<forall>nd. m k = Some nd \<longrightarrow> u = children_total m (children nd))
     \<and> (\<forall>x \<in> forest m [k]. usedIps_direct m' x)"
  "sum_children n m cs used = Some (Inr (u, m')) \<Longrightarrow>
     calc_post m m' \<and> u = foldl js_add used (map (total_of m) cs) \<and> (\<forall>x \<in> forest m cs. usedIps_direct m' x)"
proof (induction n m k and n m cs used arbitrary: u m' and u m' rule: calculateUsedIps_sum_children.induct)
  case (1 m node)
  then show ?case by simp
next
  case (2 n m node)
  from "2.prems" obtain nd used m1 nd1 where
    nd: "m node = Some nd"
    and sc: "sum_children n m (children nd) (Fin 0) = Some (Inr (used, m1))"
    and nd1: "m1 node = Some nd1"
    and res: "u = used" "m' = m1(node \<mapsto> nd1\<lparr>usedIps := used\<rparr>)"
    by (auto split: option.splits sum.splits)
  from "2.IH" [OF nd sc] have p1: "calc_post m m1"
    and us: "used = children_total m (children nd)"
    and g1: "\<forall>x \<in> forest m (children nd). usedIps_direct m1 x"
    by (simp_all add: children_total_def)
  have s1: "same_shape m m1" using p1 by (simp add: calc_post_def)
  from s1 nd obtain nd1' where "m1 node = Some nd1'" "children nd1' = children nd"
    by (rule same_shape_Some)
  with nd1 have c1: "children nd1 = children nd" by simp
  have used1: "used = children_total m1 (children nd1)"
    using us by (simp add: c1 same_shape_children_total [OF s1])
  have "usedIps_direct m1 node \<longrightarrow> used = usedIps nd1"
    using nd1 used1 by (simp add: usedIps_direct_def)
  with nd1 have p2: "calc_post m1 m'" unfolding res(2) by (rule post_upd)
  have gm: "usedIps_direct m' node" unfolding res(2) using nd1 used1 by (rule good_upd_self)
  have "\<forall>x \<in> forest m [node]. usedIps_direct m' x"
  proof
    fix x assume "x \<in> forest m [node]"
    then have "x = node \<or> x \<in> forest m (children nd)"
      using forest_node [of m node nd] nd by simp
    then show "usedIps_direct m' x" using gm g1 p2 by (auto simp: calc_post_def)
  qed
  then show ?case using post_trans [OF p1 p2] us nd res(1) by simp
next
  case (3 n m used)
  then show ?case by simp
next
  case (4 n m child rest used)
  from "4.prems" obtain c u1 m1 c1 where
    c: "m child = Some c"
    and cu: "calculateUsedIps n m child = Some (Inr (u1, m1))"
    and c1: "m1 child = Some c1"
    and sc: "sum_children n (m1(child \<mapsto> c1\<lparr>usedIps := u1\<rparr>)) rest (js_add used (totalIps c))
             = Some (Inr (u, m'))"
    by (auto split: option.splits sum.splits)
  let ?m2 = "m1(child \<mapsto> c1\<lparr>usedIps := u1\<rparr>)"
  from "4.IH"(1) [OF c cu] have p1: "calc_post m m1"
    and u1: "u1 = children_total m (children c)"
    and g1: "\<forall>x \<in> forest m [child]. usedIps_direct m1 x"
    using c by simp_all
  have s1: "same_shape m m1" using p1 by (simp add: calc_post_def)
  from s1 c obtain c1' where "m1 child = Some c1'" "children c1' = children c"
    by (rule same_shape_Some)
  with c1 have cc: "children c1 = children c" by simp
  have u1': "u1 = children_total m1 (children c1)"
    using u1 by (simp add: cc same_shape_children_total [OF s1])
  have "usedIps_direct m1 child \<longrightarrow> u1 = usedIps c1" using c1 u1' by (simp add: usedIps_direct_def)
  with c1 have p2: "calc_post m1 ?m2" by (rule post_upd)
  have p12: "calc_post m ?m2" by (rule post_trans [OF p1 p2])
  have s12: "same_shape m ?m2" using p12 by (simp add: calc_post_def)
  from "4.IH"(2) [OF c cu refl refl c1 sc] have p3: "calc_post ?m2 m'"
    and u: "u = foldl js_add (js_add used (totalIps c)) (map (total_of ?m2) rest)"
    and g3: "\<forall>x \<in> forest ?m2 rest. usedIps_direct m' x"
    by blast+
  have tc: "total_of m child = totalIps c" using c by (simp add: total_of_def)
  have "\<forall>x \<in> forest m (child # rest). usedIps_direct m' x"
  proof
    fix x assume "x \<in> forest m (child # rest)"
    then have "x \<in> forest m [child] \<or> x \<in> forest ?m2 rest"
      by (simp add: forest_Cons [of m child rest] same_shape_forest [OF s12])
    then show "usedIps_direct m' x" using g1 g3 p2 p3 by (auto simp: calc_post_def)
  qed
  then show ?case
    using post_trans [OF p12 p3] u tc by (simp add: same_shape_tot [OF s12])
qed

lemma bounded_child:
  assumes b: "depth_below m k (Suc n)" and nd: "m k = Some nd" and c: "c \<in> set (children nd)"
  shows "depth_below m c n"
  unfolding depth_below_def
proof (intro allI impI)
  fix cs assume "down_path m c cs"
  with nd c have "down_path m k (c # cs)" by (rule down_path.path_Cons)
  with b have "length (c # cs) < Suc n" unfolding depth_below_def by blast
  then show "length cs < n" by simp
qed

lemma not_bounded_0: "\<not> depth_below m k 0"
  unfolding depth_below_def using down_path.path_Nil [of m k] by auto

lemma bounded_mono: "depth_below m k n \<Longrightarrow> n \<le> n' \<Longrightarrow> depth_below m k n'"
  unfolding depth_below_def by (meson less_le_trans)

lemma calc_total:
  "refs_closed m \<Longrightarrow> k \<in> dom m \<Longrightarrow> depth_below m k n \<Longrightarrow>
     \<exists>u m'. calculateUsedIps n m k = Some (Inr (u, m'))"
  "refs_closed m \<Longrightarrow> set cs \<subseteq> dom m \<Longrightarrow> (\<forall>c \<in> set cs. depth_below m c n) \<Longrightarrow>
     \<exists>u m'. sum_children n m cs used = Some (Inr (u, m'))"
proof (induction n m k and n m cs used rule: calculateUsedIps_sum_children.induct)
  case (1 m node)
  then show ?case by (simp add: not_bounded_0)
next
  case (2 n m node)
  from "2.prems"(2) obtain nd where nd: "m node = Some nd" by auto
  have cd: "set (children nd) \<subseteq> dom m" using "2.prems"(1) nd unfolding refs_closed_def by blast
  have cb: "\<forall>c \<in> set (children nd). depth_below m c n"
    using bounded_child [OF "2.prems"(3) nd] by blast
  from "2.IH" [OF nd "2.prems"(1) cd cb] obtain used m1 where
    sc: "sum_children n m (children nd) (Fin 0) = Some (Inr (used, m1))" by blast
  have "same_shape m m1" using calc_correct(2) [OF sc] by (simp add: calc_post_def)
  from this nd obtain nd1 where "m1 node = Some nd1" by (rule same_shape_Some)
  then show ?case using nd sc by simp
next
  case (3 n m used)
  show ?case by simp
next
  case (4 n m child rest used)
  from "4.prems"(2) obtain c where c: "m child = Some c" by auto
  have "\<exists>u m'. calculateUsedIps n m child = Some (Inr (u, m'))"
    using "4.prems" c by (intro "4.IH"(1) [OF c]) auto
  then obtain u1 m1 where cu: "calculateUsedIps n m child = Some (Inr (u1, m1))" by blast
  have s1: "same_shape m m1" using calc_correct(1) [OF cu] by (simp add: calc_post_def)
  from s1 c obtain c1 where c1: "m1 child = Some c1" by (rule same_shape_Some)
  let ?m2 = "m1(child \<mapsto> c1\<lparr>usedIps := u1\<rparr>)"
  have "same_shape m1 ?m2" using c1 by (rule same_shape_upd)
  with s1 have s2: "same_shape m ?m2" by (rule same_shape_trans)
  have a: "refs_closed ?m2" using s2 "4.prems"(1) by (rule same_shape_closed)
  have b: "set rest \<subseteq> dom ?m2" using "4.prems"(2) by (simp add: same_shape_dom [OF s2] del: dom_fun_upd)
  have d: "\<forall>c \<in> set rest. depth_below ?m2 c n"
    using "4.prems"(3) by (simp add: same_shape_bounded [OF s2])
  from "4.IH"(2) [OF c cu refl refl c1 a b d] obtain u m' where
    "sum_children n ?m2 rest (js_add used (totalIps c)) = Some (Inr (u, m'))"
    by blast
  then show ?case using c cu c1 by simp
qed

lemma calc_roots_correct:
  "calc_roots n m rs = Some (Inr m') \<Longrightarrow> calc_post m m' \<and> (\<forall>x \<in> forest m rs. usedIps_direct m' x)"
proof (induction rs arbitrary: m)
  case Nil
  then show ?case by simp
next
  case (Cons r rs)
  from Cons.prems obtain u m1 where
    cu: "calculateUsedIps n m r = Some (Inr (u, m1))" and cr: "calc_roots n m1 rs = Some (Inr m')"
    by (auto split: option.splits sum.splits)
  from calc_correct(1) [OF cu] have p1: "calc_post m m1" and g1: "\<forall>x \<in> forest m [r]. usedIps_direct m1 x"
    by blast+
  from Cons.IH [OF cr] have p2: "calc_post m1 m'" and g2: "\<forall>x \<in> forest m1 rs. usedIps_direct m' x"
    by blast+
  have s1: "same_shape m m1" using p1 by (simp add: calc_post_def)
  have "\<forall>x \<in> forest m (r # rs). usedIps_direct m' x"
  proof
    fix x assume "x \<in> forest m (r # rs)"
    then have "x \<in> forest m [r] \<or> x \<in> forest m1 rs"
      by (simp add: forest_Cons [of m r rs] same_shape_forest [OF s1])
    then show "usedIps_direct m' x" using g1 g2 p2 by (auto simp: calc_post_def)
  qed
  then show ?case using post_trans [OF p1 p2] by simp
qed

lemma calc_roots_total:
  "refs_closed m \<Longrightarrow> set rs \<subseteq> dom m \<Longrightarrow> (\<forall>r \<in> set rs. depth_below m r n) \<Longrightarrow>
     \<exists>m'. calc_roots n m rs = Some (Inr m')"
proof (induction rs arbitrary: m)
  case Nil
  show ?case by simp
next
  case (Cons r rs)
  have "\<exists>u m'. calculateUsedIps n m r = Some (Inr (u, m'))"
    using Cons.prems by (intro calc_total(1)) auto
  then obtain u m1 where cu: "calculateUsedIps n m r = Some (Inr (u, m1))" by blast
  have s1: "same_shape m m1" using calc_correct(1) [OF cu] by (simp add: calc_post_def)
  have a: "refs_closed m1" using s1 Cons.prems(1) by (rule same_shape_closed)
  have b: "set rs \<subseteq> dom m1" using Cons.prems(2) by (simp add: same_shape_dom [OF s1])
  have d: "\<forall>r \<in> set rs. depth_below m1 r n"
    using Cons.prems(3) by (simp add: same_shape_bounded [OF s1])
  from Cons.IH [OF a b d] obtain m' where "calc_roots n m1 rs = Some (Inr m')" by blast
  then show ?case using cu by simp
qed

lemma new_node_fields [simp]:
  "children (new_node p) = []" "usedIps (new_node p) = Fin 0" "level (new_node p) = 0"
  "totalIps (new_node p) = cidr_info.totalIps (parseCIDR (cidr p))"
  "pool_id (new_node p) = pool_id p" "parentId (new_node p) = parentId p"
  "cidr (new_node p) = cidr p" "name (new_node p) = name p"
  by (simp_all add: new_node_def IPPool.defs PoolTreeNode.defs)

lemma find_distinct:
  "distinct (map pool_id pools) \<Longrightarrow> p \<in> set pools \<Longrightarrow>
     find (\<lambda>x. pool_id x = pool_id p) pools = Some p"
  by (induction pools) (auto simp: image_iff)

lemma parent_of_pool:
  "distinct (map pool_id pools) \<Longrightarrow> p \<in> set pools \<Longrightarrow>
     parent_of pools (pool_id p) = (case parentId p of Ref q \<Rightarrow> Some (Some q) | _ \<Rightarrow> None)"
  by (simp add: parent_of_def find_distinct)

lemma init_nodes_fold:
  "dom (foldl (\<lambda>poolMap pool. poolMap(pool_id pool \<mapsto> new_node pool)) m0 ps)
     = dom m0 \<union> pool_id ` set ps"
  "(\<forall>k nd. m0 k = Some nd \<longrightarrow> children nd = []) \<Longrightarrow>
     foldl (\<lambda>poolMap pool. poolMap(pool_id pool \<mapsto> new_node pool)) m0 ps k = Some nd \<Longrightarrow>
     children nd = []"
proof (induction ps arbitrary: m0)
  case Nil
  { case 1 show ?case by simp }
  { case 2 then show ?case by simp }
next
  case (Cons p ps)
  { case 1 show ?case unfolding foldl_Cons Cons.IH(1) by auto }
  { case 2
    have "\<forall>k nd. (m0(pool_id p \<mapsto> new_node p)) k = Some nd \<longrightarrow> children nd = []"
      using "2"(1) by auto
    from Cons.IH(2) [OF this] "2"(2) show ?case unfolding foldl_Cons by blast }
qed

lemma linked_init: "linked pools (init_nodes pools, [])"
  unfolding linked_def init_nodes_def
  using init_nodes_fold(2) [of Map.empty pools]
  by (auto simp: init_nodes_fold(1))

lemma link_pool_linked:
  assumes d: "distinct (map pool_id pools)" and p: "p \<in> set pools" and l: "linked pools st"
  shows "\<exists>st'. link_pool st p = Inr st' \<and> linked pools st'"
proof -
  obtain m roots where st: "st = (m, roots)" by (cases st)
  have dm: "dom m = pool_id ` set pools"
    and ch: "\<And>k nd c. m k = Some nd \<Longrightarrow> c \<in> set (children nd) \<Longrightarrow>
               parent_of pools c = Some k \<and> c \<in> dom m"
    and rt: "\<And>r. r \<in> set roots \<Longrightarrow> r \<in> dom m \<and> parent_of pools r = None"
    using l unfolding linked_def st by auto
  have pd: "pool_id p \<in> dom m" using p dm by auto
  then obtain n where n: "m (pool_id p) = Some n" by auto
  note po = parent_of_pool [OF d p]
  show ?thesis
  proof (cases "parentId p")
    case Undefined
    then have "link_pool st p = Inr (m, roots @ [pool_id p])" by (simp add: link_pool_def st)
    moreover have "linked pools (m, roots @ [pool_id p])"
      unfolding linked_def using dm ch rt pd po Undefined by auto
    ultimately show ?thesis by simp
  next
    case Null
    then have "link_pool st p = Inr (m, roots @ [pool_id p])" by (simp add: link_pool_def st)
    moreover have "linked pools (m, roots @ [pool_id p])"
      unfolding linked_def using dm ch rt pd po Null by auto
    ultimately show ?thesis by simp
  next
    case (Ref q)
    show ?thesis
    proof (cases "m (Some q)")
      case None
      then have "link_pool st p = Inr (m, roots)" using Ref by (simp add: link_pool_def st)
      then show ?thesis using l st by simp
    next
      case (Some parent)
      let ?m1 = "m(pool_id p \<mapsto> n\<lparr>level := level parent + 1\<rparr>)"
      obtain parent1 where p1: "?m1 (Some q) = Some parent1"
        and c1: "children parent1 = children parent"
        using Some n by (cases "Some q = pool_id p") auto
      let ?m2 = "?m1(Some q \<mapsto> parent1\<lparr>children := children parent1 @ [pool_id p]\<rparr>)"
      have r: "link_pool st p = Inr (?m2, roots)"
        using Ref Some n p1 by (simp add: link_pool_def st Let_def)
      have d2: "dom ?m2 = pool_id ` set pools" using dm pd Some by auto
      have po': "parent_of pools (pool_id p) = Some (Some q)" using po Ref by simp
      have c2: "parent_of pools c = Some k \<and> c \<in> dom ?m2"
        if "?m2 k = Some nd" "c \<in> set (children nd)" for k nd c
      proof (cases "k = Some q")
        case True
        then have "nd = parent1\<lparr>children := children parent1 @ [pool_id p]\<rparr>" using that(1) by simp
        then have "c \<in> set (children parent) \<or> c = pool_id p" using that(2) c1 by auto
        then show ?thesis
        proof
          assume "c \<in> set (children parent)"
          then show ?thesis using ch [OF Some] True d2 dm by auto
        next
          assume "c = pool_id p"
          then show ?thesis using po' True pd d2 dm by auto
        qed
      next
        case False
        then have "?m1 k = Some nd" using that(1) by simp
        then obtain nd0 where "m k = Some nd0" "children nd0 = children nd"
          using n by (cases "k = pool_id p") auto
        then show ?thesis using ch [of k nd0 c] that(2) d2 dm by auto
      qed
      have "linked pools (?m2, roots)"
        unfolding linked_def fst_conv snd_conv
      proof (intro conjI allI impI ballI)
        show "dom ?m2 = pool_id ` set pools" by (rule d2)
      next
        fix k nd c assume "?m2 k = Some nd" "c \<in> set (children nd)"
        then show "parent_of pools c = Some k" "c \<in> dom ?m2" using c2 by blast+
      next
        fix r assume "r \<in> set roots"
        then show "r \<in> dom ?m2" "parent_of pools r = None" using rt d2 dm by auto
      qed
      then show ?thesis using r by simp
    qed
  qed
qed

lemma link_all_linked:
  assumes d: "distinct (map pool_id pools)"
  shows "set ps \<subseteq> set pools \<Longrightarrow> linked pools st \<Longrightarrow>
     \<exists>st'. link_all st ps = Inr st' \<and> linked pools st'"
proof (induction ps arbitrary: st)
  case Nil
  then show ?case by simp
next
  case (Cons p ps)
  from Cons.prems have p: "p \<in> set pools" by simp
  from link_pool_linked [OF d p Cons.prems(2)] obtain st1 where
    s1: "link_pool st p = Inr st1" "linked pools st1" by blast
  from Cons.IH [OF _ s1(2)] Cons.prems(1) obtain st' where
    "link_all st1 ps = Inr st'" "linked pools st'" by auto
  then show ?case using s1(1) by simp
qed

lemma up_add: "up par (i + j) k = (case up par i k of None \<Rightarrow> None | Some x \<Rightarrow> up par j x)"
  by (induction i arbitrary: k) (auto split: option.splits)

lemma up_root: "par r = None \<Longrightarrow> 0 < j \<Longrightarrow> up par j r = None"
  by (cases j) auto

lemma path_up:
  assumes e: "\<And>k nd c. m k = Some nd \<Longrightarrow> c \<in> set (children nd) \<Longrightarrow> par c = Some k"
  shows "down_path m k cs \<Longrightarrow> i < length cs \<Longrightarrow> up par (Suc i) (cs ! i) = Some k"
proof (induction arbitrary: i rule: down_path.induct)
  case (path_Nil k)
  then show ?case by simp
next
  case (path_Cons k nd c cs)
  have pc: "par c = Some k" using path_Cons.hyps(1,2) by (rule e)
  show ?case
  proof (cases i)
    case 0
    then show ?thesis using pc by simp
  next
    case (Suc j)
    then have "up par (Suc j) (cs ! j) = Some c" using path_Cons.IH path_Cons.prems by simp
    then have "up par (Suc j + 1) (cs ! j) = Some k"
      unfolding up_add [of par "Suc j" 1] using pc by simp
    then show ?thesis using Suc by simp
  qed
qed

lemma path_distinct:
  assumes e: "\<And>k nd c. m k = Some nd \<Longrightarrow> c \<in> set (children nd) \<Longrightarrow> par c = Some k"
    and r: "par r = None" and p: "down_path m r cs"
  shows "distinct (r # cs)"
proof -
  have u: "up par (Suc i) (cs ! i) = Some r" if "i < length cs" for i
    using path_up [of m par r cs i] e p that by blast
  have a: "r \<notin> set cs"
  proof
    assume "r \<in> set cs"
    then obtain i where i: "i < length cs" "cs ! i = r" by (auto simp: in_set_conv_nth)
    then have "up par (Suc i) r = Some r" using u [of i] by simp
    then show False using up_root [of par r "Suc i"] r by simp
  qed
  have b: "distinct cs"
    unfolding distinct_conv_nth
  proof (intro allI impI)
    fix i j assume ij: "i < length cs" "j < length cs" "i \<noteq> j"
    show "cs ! i \<noteq> cs ! j"
    proof
      assume eq: "cs ! i = cs ! j"
      have c: False if lt: "a < b" and ab: "a < length cs" "b < length cs" "cs ! a = cs ! b" for a b
      proof -
        have "up par (Suc a) (cs ! b) = Some r" using u [of a] ab by simp
        moreover have "Suc b = Suc a + (b - a)" using lt by simp
        ultimately have "up par (Suc b) (cs ! b) = up par (b - a) r"
          by (simp only: up_add) simp
        moreover have "up par (b - a) r = None" using lt r up_root [of par r "b - a"] by simp
        ultimately show False using u [of b] ab by simp
      qed
      show False
      proof (cases "i < j")
        case True
        then show ?thesis using c [of i j] ij eq by simp
      next
        case False
        then have "j < i" using ij(3) by simp
        then show ?thesis using c [of j i] ij eq by simp
      qed
    qed
  qed
  show ?thesis using a b by simp
qed

lemma path_dom:
  assumes e: "\<And>k nd c. m k = Some nd \<Longrightarrow> c \<in> set (children nd) \<Longrightarrow> c \<in> dom m"
  shows "down_path m k cs \<Longrightarrow> set cs \<subseteq> dom m"
  by (induction rule: down_path.induct) (use e in auto)

lemma linked_closed: "linked pools (m, roots) \<Longrightarrow> refs_closed m"
  unfolding linked_def refs_closed_def by auto

lemma linked_bounded:
  assumes l: "linked pools (m, roots)" and r: "r \<in> set roots"
  shows "depth_below m r (length pools)"
  unfolding depth_below_def
proof (intro allI impI)
  fix cs assume p: "down_path m r cs"
  have e: "\<And>k nd c. m k = Some nd \<Longrightarrow> c \<in> set (children nd) \<Longrightarrow> parent_of pools c = Some k"
    and e': "\<And>k nd c. m k = Some nd \<Longrightarrow> c \<in> set (children nd) \<Longrightarrow> c \<in> dom m"
    and rr: "r \<in> dom m" "parent_of pools r = None"
    and dm: "dom m = pool_id ` set pools"
    using l r unfolding linked_def by auto
  have d: "distinct (r # cs)" using e rr(2) p by (rule path_distinct)
  have "set (r # cs) \<subseteq> pool_id ` set pools"
    using path_dom [of m, OF e' p] rr(1) dm by auto
  then have "card (set (r # cs)) \<le> card (pool_id ` set pools)"
    by (intro card_mono) auto
  also have "\<dots> \<le> card (set pools)" by (rule card_image_le) simp
  also have "\<dots> \<le> length pools" by (rule card_length)
  finally have "length (r # cs) \<le> length pools" using distinct_card [OF d] by simp
  then show "length cs < length pools" by simp
qed

lemma linked_same_shape:
  assumes l: "linked pools (m, roots)" and s: "same_shape m m'"
  shows "linked pools (m', roots)"
  unfolding linked_def fst_conv snd_conv
proof (intro conjI allI impI ballI)
  show "dom m' = pool_id ` set pools" using l by (simp add: linked_def same_shape_dom [OF s])
next
  fix k nd' c assume a: "m' k = Some nd'" "c \<in> set (children nd')"
  from same_shape_sym [OF s] a(1) obtain nd where "m k = Some nd" "children nd = children nd'"
    by (rule same_shape_Some)
  then show "parent_of pools c = Some k" "c \<in> dom m'"
    using l a(2) unfolding linked_def fst_conv same_shape_dom [OF s] by metis+
next
  fix r assume "r \<in> set roots"
  then show "r \<in> dom m'" "parent_of pools r = None"
    using l unfolding linked_def fst_conv snd_conv same_shape_dom [OF s] by blast+
qed

lemma buildPoolTree_returns:
  assumes d: "distinct (map pool_id pools)" and n: "length pools \<le> depth"
  obtains m roots where "buildPoolTree depth pools = Some (Inr (m, roots))"
    "linked pools (m, roots)" "\<forall>k \<in> forest m roots. usedIps_direct m k"
proof -
  from link_all_linked [OF d _ linked_init, of pools] obtain m0 roots where
    la: "link_all (init_nodes pools, []) pools = Inr (m0, roots)" and l0: "linked pools (m0, roots)"
    by auto
  have c0: "refs_closed m0" using l0 by (rule linked_closed)
  have r0: "set roots \<subseteq> dom m0" using l0 unfolding linked_def by auto
  have b0: "\<forall>r \<in> set roots. depth_below m0 r depth"
    using linked_bounded [OF l0] bounded_mono [OF _ n] by blast
  from calc_roots_total [OF c0 r0 b0] obtain m where cr: "calc_roots depth m0 roots = Some (Inr m)"
    by blast
  from calc_roots_correct [OF cr] have p: "calc_post m0 m" and g: "\<forall>x \<in> forest m0 roots. usedIps_direct m x"
    by blast+
  have s: "same_shape m0 m" using p by (simp add: calc_post_def)
  have 1: "buildPoolTree depth pools = Some (Inr (m, roots))"
    by (simp add: buildPoolTree_def la cr)
  have 2: "linked pools (m, roots)" using l0 s by (rule linked_same_shape)
  have 3: "\<forall>k \<in> forest m roots. usedIps_direct m k" using g by (simp add: same_shape_forest [OF s])
  show ?thesis using 1 2 3 by (rule that)
qed

lemma forest_up:
  assumes l: "linked pools (m, roots)"
  shows "k \<in> forest m roots \<Longrightarrow>
     k \<in> dom m \<and> (\<exists>n r. up (parent_of pools) n k = Some r \<and> parent_of pools r = None)"
proof (induction rule: forest.induct)
  case (root k)
  then have "k \<in> dom m" "parent_of pools k = None" using l unfolding linked_def by auto
  moreover have "up (parent_of pools) 0 k = Some k" by simp
  ultimately show ?case by blast
next
  case (child k nd c)
  then obtain n r where u: "up (parent_of pools) n k = Some r" "parent_of pools r = None" by blast
  have pc: "parent_of pools c = Some k" "c \<in> dom m"
    using l child.hyps(2,3) unfolding linked_def fst_conv by blast+
  then have "up (parent_of pools) (Suc n) c = Some r" using u(1) by simp
  then show ?case using u(2) pc(2) by blast
qed

lemma up_cycle: "0 < j \<Longrightarrow> up par j k = Some k \<Longrightarrow> up par (j * t) k = Some k"
proof (induction t)
  case 0
  show ?case by simp
next
  case (Suc t)
  have "up par (j * t + j) k = Some k" unfolding up_add using Suc by simp
  then show ?case by (simp add: add.commute)
qed

lemma up_None_add: "up par i k = None \<Longrightarrow> up par (i + j) k = None"
  by (simp add: up_add)

lemma forest_not_on_cycle:
  assumes l: "linked pools (m, roots)" and k: "k \<in> forest m roots"
  shows "\<not> on_cycle pools k"
proof
  assume "on_cycle pools k"
  then obtain j where j: "0 < j" "up (parent_of pools) j k = Some k" unfolding on_cycle_def by blast
  from forest_up [OF l k] obtain n r where
    u: "up (parent_of pools) n k = Some r" "parent_of pools r = None" by blast
  have "up (parent_of pools) (n + 1) k = None" unfolding up_add using u by simp
  then have "up (parent_of pools) (n + 1 + (j * (n + 1) - (n + 1))) k = None" by (rule up_None_add)
  moreover have eq: "n + 1 + (j * (n + 1) - (n + 1)) = j * (n + 1)" using j(1) by (cases j) simp_all
  ultimately have "up (parent_of pools) (j * (n + 1)) k = None" by (simp only: eq)
  moreover have "up (parent_of pools) (j * (n + 1)) k = Some k" using j by (rule up_cycle)
  ultimately show False by simp
qed

lemma orphan_not_in_forest:
  assumes d: "distinct (map pool_id pools)" and l: "linked pools (m, roots)"
    and p: "p \<in> set pools" "parentId p = Ref q" "Some q \<notin> pool_id ` set pools"
  shows "pool_id p \<notin> forest m roots"
proof
  assume "pool_id p \<in> forest m roots"
  then show False
  proof (cases rule: forest.cases)
    case root
    then have "parent_of pools (pool_id p) = None" using l unfolding linked_def by auto
    then show False using parent_of_pool [OF d p(1)] p(2) by simp
  next
    case (child k nd)
    then have "parent_of pools (pool_id p) = Some k" using l unfolding linked_def fst_conv by blast
    then have "k = Some q" using parent_of_pool [OF d p(1)] p(2) by simp
    moreover have "k \<in> pool_id ` set pools" using child(2) l unfolding linked_def fst_conv by blast
    ultimately show False using p(3) by simp
  qed
qed

lemma orphan_no_child:
  assumes d: "distinct (map pool_id pools)" and l: "linked pools (m, roots)"
    and p: "p \<in> set pools" "parentId p = Ref q" "Some q \<notin> pool_id ` set pools"
    and nd: "m k = Some nd"
  shows "pool_id p \<notin> set (children nd)"
proof
  assume c: "pool_id p \<in> set (children nd)"
  have "parent_of pools (pool_id p) = Some k"
    using l nd c unfolding linked_def fst_conv by blast
  then have "k = Some q" using parent_of_pool [OF d p(1)] p(2) by simp
  moreover have "k \<in> dom m" using nd by blast
  then have "k \<in> pool_id ` set pools" using l unfolding linked_def fst_conv by simp
  ultimately show False using p(3) by simp
qed

lemma pool_fields [simp]:
  "pool_id (pool i c p) = Some i" "cidr (pool i c p) = c" "parentId (pool i c p) = p"
  by (simp_all add: pool_def)

lemma totalIps_examples:
  "cidr_info.totalIps (parseCIDR ''10.0.0.0/16'') = jint 65536"
  "cidr_info.totalIps (parseCIDR ''10.0.0.0/24'') = jint 256"
  "cidr_info.totalIps (parseCIDR ''10.0.0.0/25'') = jint 128"
proof -
  have v: "spec_isValidCIDR ''10.0.0.0/16''" "spec_isValidCIDR ''10.0.0.0/24''"
    "spec_isValidCIDR ''10.0.0.0/25''"
    by (simp_all add: spec_isValidCIDR_def spec_isValidIP_def digits_simps is_digit_def dec_val_def
      digit_val_def)
  show "cidr_info.totalIps (parseCIDR ''10.0.0.0/16'') = jint 65536"
    "cidr_info.totalIps (parseCIDR ''10.0.0.0/24'') = jint 256"
    "cidr_info.totalIps (parseCIDR ''10.0.0.0/25'') = jint 128"
    by (simp_all add: parseCIDR_valid(3) [OF v(1)] parseCIDR_valid(3) [OF v(2)]
        parseCIDR_valid(3) [OF v(3)] cidr_prefix_def dec_val_def digit_val_def)
qed

lemma js_add_small [simp]:
  "js_add (Fin 0) (jint 256) = jint 256" "js_add (Fin 0) (jint 128) = jint 128"
  "js_add (jint 256) (jint 256) = jint 512"
  by (simp_all add: Fin_numeral js_add_jint)

lemma node_view_simps [simp]:
  "node_view (m(k \<mapsto> n)) k' = (if k' = k then Some (children n, totalIps n, usedIps n, level n) else node_view m k')"
  by (simp add: node_view_def)

lemma chain_forward:
  "tree_view (buildPoolTree 3
      [pool 1 ''10.0.0.0/16'' Null, pool 2 ''10.0.0.0/24'' (Ref 1), pool 3 ''10.0.0.0/25'' (Ref 2)])
      [Some 1, Some 2, Some 3]
   = Some (Inr ([Some 1],
        [Some ([Some 2], jint 65536, jint 256, 0),
         Some ([Some 3], jint 256, jint 128, 1),
         Some ([], jint 128, Fin 0, 2)]))"
  by (simp add: tree_view_def buildPoolTree_def init_nodes_def link_pool_def totalIps_examples
      numeral_3_eq_3 Let_def)

lemma chain_backward:
  "tree_view (buildPoolTree 3
      [pool 3 ''10.0.0.0/25'' (Ref 2), pool 2 ''10.0.0.0/24'' (Ref 1), pool 1 ''10.0.0.0/16'' Null])
      [Some 1, Some 2, Some 3]
   = Some (Inr ([Some 1],
        [Some ([Some 2], jint 65536, jint 256, 0),
         Some ([Some 3], jint 256, jint 128, 1),
         Some ([], jint 128, Fin 0, 1)]))"
  by (simp add: tree_view_def buildPoolTree_def init_nodes_def link_pool_def totalIps_examples
      numeral_3_eq_3 Let_def)

lemma orphan_example:
  "tree_view (buildPoolTree 2
      [pool 1 ''10.0.0.0/16'' Null, pool 2 ''10.0.0.0/24'' (Ref 99)])
      [Some 1, Some 2]
   = Some (Inr ([Some 1],
        [Some ([], jint 65536, Fin 0, 0),
         Some ([], jint 256, Fin 0, 0)]))"
  by (simp add: tree_view_def buildPoolTree_def init_nodes_def link_pool_def totalIps_examples
      numeral_2_eq_2 Let_def)

section \<open>Validating a candidate, and the examples\<close>

lemma tree_view_Some:
  "tree_view r ks = Some (Inr (roots, vs)) \<Longrightarrow>
     \<exists>m. r = Some (Inr (m, roots)) \<and> map (node_view m) ks = vs"
  by (cases r) (auto simp: tree_view_def map_sum_def split: sum.splits)

lemma result_store_simp [simp]: "result_store (Some (Inr (m, roots))) = m"
  by (simp add: result_store_def)

lemma forest_of_simp [simp]: "forest_of (Some (Inr (m, roots))) = forest m roots"
  by (simp add: forest_of_def)

lemma cycle_examples:
  "on_cycle [pool 1 ''10.0.0.0/16'' Null, pool 2 ''10.0.0.0/24'' (Ref 3),
             pool 3 ''10.0.0.0/25'' (Ref 2), pool 4 ''10.0.0.0/24'' (Ref 4)] (Some 2)"
  "on_cycle [pool 1 ''10.0.0.0/16'' Null, pool 2 ''10.0.0.0/24'' (Ref 3),
             pool 3 ''10.0.0.0/25'' (Ref 2), pool 4 ''10.0.0.0/24'' (Ref 4)] (Some 4)"
proof -
  let ?ps = "[pool 1 ''10.0.0.0/16'' Null, pool 2 ''10.0.0.0/24'' (Ref 3),
             pool 3 ''10.0.0.0/25'' (Ref 2), pool 4 ''10.0.0.0/24'' (Ref 4)]"
  have "up (parent_of ?ps) (Suc (Suc 0)) (Some 2) = Some (Some 2)"
    by (simp add: parent_of_def)
  then show "on_cycle ?ps (Some 2)" unfolding on_cycle_def by (intro exI [of _ "Suc (Suc 0)"]) simp
  have "up (parent_of ?ps) (Suc 0) (Some 4) = Some (Some 4)"
    by (simp add: parent_of_def)
  then show "on_cycle ?ps (Some 4)" unfolding on_cycle_def by (intro exI [of _ "Suc 0"]) simp
qed

lemma normalizeCIDR_valid:
  assumes "spec_isValidCIDR c"
  shows "normalizeCIDR c
       = numberToIp (jint (int (block_network c))) @ ''/'' @ show_nat (cidr_prefix c)"
proof -
  from assms obtain ip pfx s1 s2 s3 s4 where
    sp: "split CHR ''/'' c = [ip, pfx]" and si: "split CHR ''.'' ip = [s1, s2, s3, s4]"
    and d: "digits s1" "digits s2" "digits s3" "digits s4"
    and b: "dec_val s1 \<le> 255" "dec_val s2 \<le> 255" "dec_val s3 \<le> 255" "dec_val s4 \<le> 255"
    and p: "digits pfx" "8 \<le> dec_val pfx" "dec_val pfx \<le> 32"
    by (rule spec_valid_parts)
  let ?V = "octets_value (dec_val s1) (dec_val s2) (dec_val s3) (dec_val s4)"
  let ?p = "dec_val pfx"
  let ?k = "32 - ?p"
  let ?W = "word_of_nat ?V :: 32 word"
  let ?M = "push_bit ?k (- 1) :: 32 word"
  let ?N = "?W AND ?M"
  have V: "?V < 2 ^ 32" by (rule octets_value_bound [OF b])
  have k: "?k \<le> 32" by simp
  have cv: "cidr_ip_value c = ?V" by (simp add: cidr_ip_value_def sp si)
  have cp: "cidr_prefix c = ?p" by (simp add: cidr_prefix_def sp)
  have pr: "parseInt_opt (elem_at [ip, pfx] 1) = jint (int ?p)"
    using p by (simp add: parseInt_opt_def elem_at_def parseInt_digits_jint)
  have ipn: "ipToNumber ip = jint (signed32 ?V)" by (rule ipToNumber_parts [OF si d b])
  have sub: "js_sub (jint 32) (jint (int ?p)) = jint (int ?k)"
    using p by (subst js_sub_jint) (simp_all add: of_nat_diff)
  have shl: "js_shl (jint (- 1)) (jint (int ?k)) = jint (sint ?M)"
  proof -
    have "js_shl (jint (- 1)) (jint (int ?k))
        = jint (sint (push_bit (nat (int ?k)) (word_of_int (- 1) :: 32 word)))"
      using p by (intro js_shl_jint) simp_all
    then show ?thesis by (simp only: nat_int of_int_minus of_int_1)
  qed
  have mask: "js_ushr (jint (sint ?M)) (jint 0) = jint (uint ?M)"
    by (subst js_ushr_jint) simp_all
  have a: "js_and (jint (signed32 ?V)) (jint (uint ?M)) = jint (sint ?N)"
    by (simp only: js_and_jint word_of_int_signed32 word_of_int_uint)
  have net: "js_ushr (jint (sint ?N)) (jint 0) = jint (uint ?N)"
    by (subst js_ushr_jint) simp_all
  have g: "getNetworkAddress ip (jint (int ?p)) = numberToIp (jint (uint ?N))"
    unfolding getNetworkAddress_def Let_def
    by (simp only: ipn Fin_numeral sub shl mask a net)
  have uN: "unat ?N = block_network c"
    using V by (simp only: unat_network [OF k] block_network_def cv cp unat_of_nat) simp
  have "uint ?N = int (unat ?N)" by simp
  then have u: "uint ?N = int (block_network c)" by (simp only: uN)
  have ts: "Number_toString (jint (int ?p)) = show_nat ?p"
    using p(3) by (intro toString_nat) simp
  show ?thesis
    unfolding normalizeCIDR_def Let_def sp
    by (simp only: nth_Cons_0 pr g u ts cp)
qed

lemma show_nat_numeral:
  "show_nat (numeral k) =
     (if numeral k < (10 :: nat) then [digit_char (numeral k)]
      else show_nat (numeral k div 10) @ [digit_char (numeral k mod 10)])"
  by (rule show_nat.simps)

lemma digit_char_values:
  "digit_char 0 = CHR ''0''" "digit_char 1 = CHR ''1''" "digit_char 2 = CHR ''2''"
  "digit_char 3 = CHR ''3''" "digit_char 4 = CHR ''4''" "digit_char 5 = CHR ''5''"
  "digit_char 6 = CHR ''6''" "digit_char 7 = CHR ''7''" "digit_char 8 = CHR ''8''"
  "digit_char 9 = CHR ''9''"
  by (simp_all add: char_of_def bit_0)

lemma show_nat_1: "show_nat (Suc 0) = ''1''"
  by (subst show_nat.simps) (simp add: char_of_def bit_0)

lemma normalize_example: "normalizeCIDR ''192.168.7.9/24'' = ''192.168.7.0/24''"
proof -
  have v: "spec_isValidCIDR ''192.168.7.9/24''"
    by (simp add: spec_isValidCIDR_def spec_isValidIP_def digits_simps is_digit_def dec_val_def
        digit_val_def)
  have b: "block_network ''192.168.7.9/24'' = 3232237312" "cidr_prefix ''192.168.7.9/24'' = 24"
    by (simp_all add: block_network_def cidr_ip_value_def cidr_prefix_def
      octets_value_def dec_val_def digit_val_def)
  have u: "unat (word_of_int (int 3232237312) :: 32 word) = 3232237312" by simp
  show ?thesis
    unfolding normalizeCIDR_valid [OF v] b numberToIp_word u Let_def
    by (simp add: show_nat_numeral show_nat_0 show_nat_1 digit_char_values del: digit_char.simps)
qed

lemma same_parent_Some: "same_parent r (Some pid) = (r = Ref pid)"
  by (cases r) auto

lemma validateCIDR_no_parent:
  assumes "\<forall>p \<in> set pools. pool_id p \<noteq> Some pid"
  shows "validationError (validateCIDR rows pools c (Some pid)) =
     (if c = [] then []
      else if \<not> isValidCIDR c then ''Invalid CIDR format. Use format like 10.0.0.0/24''
      else if cidrExists rows (normalizeCIDR c) then ''This CIDR range already exists''
      else (case find (\<lambda>sibling. cidrsOverlap (normalizeCIDR c) (cidr sibling))
                   (filter (\<lambda>p. parentId p = Ref pid) pools) of
              Some sibling \<Rightarrow>
                ''Overlaps with existing pool: '' @ name sibling @ '' ('' @ cidr sibling @ '')''
            | None \<Rightarrow> []))"
proof -
  have f: "find (\<lambda>p. pool_id p = Some pid) pools = None"
    using assms by (simp add: find_None_iff)
  have e: "(if normalizeCIDR c \<noteq> c then normalizeCIDR c else c) = normalizeCIDR c" by simp
  show ?thesis
    unfolding validateCIDR_def Let_def e
    by (simp add: f same_parent_Some split: option.splits)
qed

lemma normalize_example2: "normalizeCIDR ''192.168.7.0/24'' = ''192.168.7.0/24''"
proof -
  have v: "spec_isValidCIDR ''192.168.7.0/24''"
    by (simp add: spec_isValidCIDR_def spec_isValidIP_def digits_simps is_digit_def dec_val_def
        digit_val_def)
  have b: "block_network ''192.168.7.0/24'' = 3232237312" "cidr_prefix ''192.168.7.0/24'' = 24"
    by (simp_all add: block_network_def cidr_ip_value_def cidr_prefix_def
      octets_value_def dec_val_def digit_val_def)
  have u: "unat (word_of_int (int 3232237312) :: 32 word) = 3232237312" by simp
  show ?thesis
    unfolding normalizeCIDR_valid [OF v] b numberToIp_word u Let_def
    by (simp add: show_nat_numeral show_nat_0 show_nat_1 digit_char_values del: digit_char.simps)
qed

lemma valid_example2: "isValidCIDR ''192.168.7.0/24''"
  by (rule isValidCIDR_of_spec)
    (simp add: spec_isValidCIDR_def spec_isValidIP_def digits_simps is_digit_def dec_val_def
        digit_val_def)

subsection \<open>What \<open>calculateUsedIps\<close> leaves alone\<close>

text \<open>A run of \<open>calculateUsedIps\<close> writes to the nodes below its argument only.\<close>

lemma calc_frame:
  "calculateUsedIps n m k = Some (Inr (u, m')) \<Longrightarrow> x \<notin> forest m [k] \<Longrightarrow> m' x = m x"
  "sum_children n m cs used = Some (Inr (u, m')) \<Longrightarrow> x \<notin> forest m cs \<Longrightarrow> m' x = m x"
proof (induction n m k and n m cs used arbitrary: u m' and u m' rule: calculateUsedIps_sum_children.induct)
  case (1 m node)
  then show ?case by simp
next
  case (2 n m node)
  from "2.prems"(1) obtain nd used m1 nd1 where
    nd: "m node = Some nd"
    and sc: "sum_children n m (children nd) (Fin 0) = Some (Inr (used, m1))"
    and nd1: "m1 node = Some nd1"
    and res: "m' = m1(node \<mapsto> nd1\<lparr>usedIps := used\<rparr>)"
    by (auto split: option.splits sum.splits)
  have f: "forest m [node] = insert node (forest m (children nd))"
    using forest_node [of m node nd] nd by simp
  have "x \<noteq> node" "x \<notin> forest m (children nd)" using "2.prems"(2) f by auto
  then show ?case using "2.IH" [OF nd sc] res by simp
next
  case (3 n m used)
  then show ?case by simp
next
  case (4 n m child rest used)
  from "4.prems"(1) obtain c u1 m1 c1 where
    c: "m child = Some c"
    and cu: "calculateUsedIps n m child = Some (Inr (u1, m1))"
    and c1: "m1 child = Some c1"
    and sc: "sum_children n (m1(child \<mapsto> c1\<lparr>usedIps := u1\<rparr>)) rest (js_add used (totalIps c))
             = Some (Inr (u, m'))"
    by (auto split: option.splits sum.splits)
  let ?m2 = "m1(child \<mapsto> c1\<lparr>usedIps := u1\<rparr>)"
  have s1: "same_shape m m1" using calc_correct(1) [OF cu] by (simp add: calc_post_def)
  have "same_shape m1 ?m2" using c1 by (rule same_shape_upd)
  with s1 have s2: "same_shape m ?m2" by (rule same_shape_trans)
  have x: "x \<notin> forest m [child]" "x \<notin> forest m rest"
    using "4.prems"(2) forest_Cons [of m child rest] by auto
  have xc: "x \<noteq> child" using x(1) by (auto intro: forest.root)
  have "m1 x = m x" using cu x(1) by (rule "4.IH"(1) [OF c])
  moreover have "x \<notin> forest ?m2 rest"
    using x(2) same_shape_forest [OF s2, of rest] by simp
  then have "m' x = ?m2 x" by (rule "4.IH"(2) [OF c cu refl refl c1 sc])
  ultimately show ?case using xc by simp
qed

lemma calc_roots_frame:
  "calc_roots n m rs = Some (Inr m') \<Longrightarrow> x \<notin> forest m rs \<Longrightarrow> m' x = m x"
proof (induction rs arbitrary: m)
  case Nil
  then show ?case by simp
next
  case (Cons r rs)
  from Cons.prems(1) obtain u m1 where
    cu: "calculateUsedIps n m r = Some (Inr (u, m1))" and cr: "calc_roots n m1 rs = Some (Inr m')"
    by (auto split: option.splits sum.splits)
  have s1: "same_shape m m1" using calc_correct(1) [OF cu] by (simp add: calc_post_def)
  have x: "x \<notin> forest m [r]" "x \<notin> forest m rs"
    using Cons.prems(2) forest_Cons [of m r rs] by auto
  have "m1 x = m x" using cu x(1) by (rule calc_frame(1))
  moreover have "m' x = m1 x"
    using cr x(2) by (intro Cons.IH) (simp_all add: same_shape_forest [OF s1])
  ultimately show ?case by simp
qed

lemma link_pool_unused:
  "link_pool st p = Inr st' \<Longrightarrow> unused (fst st) \<Longrightarrow> unused (fst st')"
  unfolding link_pool_def Let_def unused_def
  by (auto split: parent_ref.splits option.splits if_splits)

lemma link_all_unused:
  "link_all st ps = Inr st' \<Longrightarrow> unused (fst st) \<Longrightarrow> unused (fst st')"
proof (induction ps arbitrary: st)
  case Nil
  then show ?case by simp
next
  case (Cons p ps)
  from Cons.prems(1) obtain st1 where
    1: "link_pool st p = Inr st1" and 2: "link_all st1 ps = Inr st'"
    by (auto split: sum.splits)
  from link_pool_unused [OF 1 Cons.prems(2)] Cons.IH [OF 2] show ?case by blast
qed

lemma init_nodes_fold_unused:
  "unused m0 \<Longrightarrow> unused (foldl (\<lambda>poolMap pool. poolMap(pool_id pool \<mapsto> new_node pool)) m0 ps)"
proof (induction ps arbitrary: m0)
  case Nil
  then show ?case by simp
next
  case (Cons p ps)
  have "unused (m0(pool_id p \<mapsto> new_node p))" using Cons.prems by (simp add: unused_def)
  from Cons.IH [OF this] show ?case by (simp only: foldl_Cons)
qed

lemma init_nodes_unused: "unused (init_nodes pools)"
  unfolding init_nodes_def by (rule init_nodes_fold_unused) (simp add: unused_def)


lemma buildPoolTree_untouched:
  assumes r: "buildPoolTree depth pools = Some (Inr (m, roots))"
    and k: "k \<notin> forest m roots" and nd: "m k = Some nd"
  shows "usedIps nd = Fin 0"
proof -
  from r obtain m0 where
    la: "link_all (init_nodes pools, []) pools = Inr (m0, roots)"
    and cr: "calc_roots depth m0 roots = Some (Inr m)"
    unfolding buildPoolTree_def by (auto split: sum.splits option.splits)
  have u: "unused m0" using link_all_unused [OF la] init_nodes_unused by simp
  have s: "same_shape m0 m" using calc_roots_correct [OF cr] by (simp add: calc_post_def)
  have "k \<notin> forest m0 roots" using k by (simp add: same_shape_forest [OF s])
  with cr have "m k = m0 k" by (rule calc_roots_frame)
  then show ?thesis using u nd by (simp add: unused_def)
qed

section \<open>The claims\<close>

text \<open>
  C1. The claim: in the forest of \<open>buildPoolTree\<close>, \<open>usedIps\<close> of every node is the sum of
  \<open>totalIps\<close> over all its descendants, that is, the sum over its direct children of
  \<open>child.totalIps + child.usedIps\<close>. \<open>calculateUsedIps\<close> adds \<open>child.totalIps\<close> only:
  for the chain 10.0.0.0/16, 10.0.0.0/24, 10.0.0.0/25 the root gets 256, not 256 + 128.
\<close>

theorem usedIps_all_descendants_counterexample:
  "Some 1 \<in> forest_of (buildPoolTree 3
       [pool 1 ''10.0.0.0/16'' Null, pool 2 ''10.0.0.0/24'' (Ref 1), pool 3 ''10.0.0.0/25'' (Ref 2)])
   \<and> \<not> spec_usedIps (result_store (buildPoolTree 3
       [pool 1 ''10.0.0.0/16'' Null, pool 2 ''10.0.0.0/24'' (Ref 1), pool 3 ''10.0.0.0/25'' (Ref 2)]))
       (Some 1)
   \<and> tree_view (buildPoolTree 3
       [pool 1 ''10.0.0.0/16'' Null, pool 2 ''10.0.0.0/24'' (Ref 1), pool 3 ''10.0.0.0/25'' (Ref 2)])
       [Some 1, Some 2, Some 3]
     = Some (Inr ([Some 1],
          [Some ([Some 2], Fin 65536, Fin 256, 0),
           Some ([Some 3], Fin 256, Fin 128, 1),
           Some ([], Fin 128, Fin 0, 2)]))"
proof -
  let ?r = "buildPoolTree 3
       [pool 1 ''10.0.0.0/16'' Null, pool 2 ''10.0.0.0/24'' (Ref 1), pool 3 ''10.0.0.0/25'' (Ref 2)]"
  from tree_view_Some [OF chain_forward] obtain m where
    r: "?r = Some (Inr (m, [Some 1]))"
    and v: "node_view m (Some 1) = Some ([Some 2], jint 65536, jint 256, 0)"
      "node_view m (Some 2) = Some ([Some 3], jint 256, jint 128, 1)"
    by auto
  have a: "Some 1 \<in> forest_of ?r" unfolding r by (simp add: forest.root)
  have "js_add (Fin 0) (js_add (jint 256) (jint 128)) = jint 384"
    by (simp add: Fin_numeral js_add_jint)
  then have b: "\<not> spec_usedIps (result_store ?r) (Some 1)"
    unfolding r by (simp add: spec_usedIps_def v) (simp add: jint_def)
  have c: "tree_view ?r [Some 1, Some 2, Some 3]
     = Some (Inr ([Some 1],
          [Some ([Some 2], Fin 65536, Fin 256, 0),
           Some ([Some 3], Fin 256, Fin 128, 1),
           Some ([], Fin 128, Fin 0, 2)]))"
    using chain_forward by (simp add: jint_def)
  show ?thesis using a b c by (simp only: simp_thms)
qed

text \<open>
  C1, as amended: for pools with pairwise distinct ids, \<open>buildPoolTree\<close> returns, and in its
  forest \<open>usedIps\<close> of every node is the sum of \<open>totalIps\<close> over its direct children only
  (so 0 at a leaf).
\<close>

theorem usedIps_direct_children:
  assumes "distinct (map pool_id pools)" and "length pools \<le> depth"
  shows "\<exists>m roots. buildPoolTree depth pools = Some (Inr (m, roots))
           \<and> (\<forall>k \<in> forest m roots. usedIps_direct m k)
           \<and> (\<forall>k \<in> forest m roots. \<forall>nd. m k = Some nd \<longrightarrow> children nd = [] \<longrightarrow> usedIps nd = Fin 0)"
proof -
  from assms obtain m roots where r: "buildPoolTree depth pools = Some (Inr (m, roots))"
    and g: "\<forall>k \<in> forest m roots. usedIps_direct m k"
    by (rule buildPoolTree_returns)
  have "usedIps nd = Fin 0" if "k \<in> forest m roots" "m k = Some nd" "children nd = []" for k nd
  proof -
    have "usedIps_direct m k" using g that(1) by blast
    then show ?thesis using that(2,3) by (simp add: usedIps_direct_def children_total_def)
  qed
  then have "\<forall>k \<in> forest m roots. \<forall>nd. m k = Some nd \<longrightarrow> children nd = [] \<longrightarrow> usedIps nd = Fin 0"
    by blast
  with r g show ?thesis by blast
qed

theorem usedIps_direct_children_witness:
  "distinct (map pool_id
      [pool 1 ''10.0.0.0/16'' Null, pool 2 ''10.0.0.0/24'' (Ref 1), pool 3 ''10.0.0.0/25'' (Ref 2)])
   \<and> length [pool 1 ''10.0.0.0/16'' Null, pool 2 ''10.0.0.0/24'' (Ref 1),
              pool 3 ''10.0.0.0/25'' (Ref 2)] \<le> 3
   \<and> usedIps_direct (result_store (buildPoolTree 3
        [pool 1 ''10.0.0.0/16'' Null, pool 2 ''10.0.0.0/24'' (Ref 1), pool 3 ''10.0.0.0/25'' (Ref 2)]))
        (Some 1)"
proof -
  let ?ps = "[pool 1 ''10.0.0.0/16'' Null, pool 2 ''10.0.0.0/24'' (Ref 1), pool 3 ''10.0.0.0/25'' (Ref 2)]"
  have d: "distinct (map pool_id ?ps)" by simp
  have n: "length ?ps \<le> 3" by simp
  from usedIps_direct_children [OF d n] obtain m roots where
    r: "buildPoolTree 3 ?ps = Some (Inr (m, roots))"
    and g: "\<forall>k \<in> forest m roots. usedIps_direct m k" by blast
  from tree_view_Some [OF chain_forward] r have "roots = [Some 1]" by auto
  then have "Some 1 \<in> forest m roots" by (simp add: forest.root)
  with g have "usedIps_direct m (Some 1)" by blast
  then show ?thesis using d n by (simp only: r result_store_simp simp_thms)
qed

text \<open>
  C2. The claim: a pool whose \<open>parentId\<close> does not resolve is surfaced as an error, never
  silently dropped from the forest nor silently made a root. The second loop does nothing
  with such a pool: \<open>buildPoolTree\<close> returns normally and the pool is in no part of the
  forest.
\<close>

theorem orphan_silently_dropped_counterexample:
  "tree_view (buildPoolTree 2 [pool 1 ''10.0.0.0/16'' Null, pool 2 ''10.0.0.0/24'' (Ref 99)])
       [Some 1, Some 2]
     = Some (Inr ([Some 1], [Some ([], Fin 65536, Fin 0, 0), Some ([], Fin 256, Fin 0, 0)]))
   \<and> Some 2 \<notin> forest_of (buildPoolTree 2
       [pool 1 ''10.0.0.0/16'' Null, pool 2 ''10.0.0.0/24'' (Ref 99)])"
proof -
  let ?r = "buildPoolTree 2 [pool 1 ''10.0.0.0/16'' Null, pool 2 ''10.0.0.0/24'' (Ref 99)]"
  from tree_view_Some [OF orphan_example] obtain m where
    r: "?r = Some (Inr (m, [Some 1]))"
    and v: "node_view m (Some 1) = Some ([], jint 65536, Fin 0, 0)"
    by auto
  have f: "k \<in> forest m [Some 1] \<Longrightarrow> k = Some 1" for k
  proof (induction rule: forest.induct)
    case (root k)
    then show ?case by simp
  next
    case (child k nd c)
    then show ?case using v by (simp add: node_view_def)
  qed
  have a: "Some 2 \<notin> forest_of ?r" unfolding r using f [of "Some 2"] by auto
  have b: "tree_view ?r [Some 1, Some 2]
     = Some (Inr ([Some 1], [Some ([], Fin 65536, Fin 0, 0), Some ([], Fin 256, Fin 0, 0)]))"
    using orphan_example by (simp add: jint_def)
  show ?thesis using a b by (simp only: simp_thms)
qed

text \<open>
  C2, as amended: for pools with pairwise distinct ids, \<open>buildPoolTree\<close> returns normally (no
  error is reported), and a pool whose \<open>parentId\<close> does not resolve is left out of the
  forest: it is not a root, not reachable from a root, and not in the \<open>children\<close> of any
  node of the store, inside the forest or outside.
\<close>

theorem orphan_left_out:
  assumes "distinct (map pool_id pools)" and "length pools \<le> depth"
    and "p \<in> set pools" and "parentId p = Ref q" and "Some q \<notin> pool_id ` set pools"
  shows "\<exists>m roots. buildPoolTree depth pools = Some (Inr (m, roots))
           \<and> pool_id p \<notin> forest m roots \<and> pool_id p \<notin> set roots
           \<and> (\<forall>k nd. m k = Some nd \<longrightarrow> pool_id p \<notin> set (children nd))"
proof -
  from assms(1,2) obtain m roots where
    r: "buildPoolTree depth pools = Some (Inr (m, roots))" and l: "linked pools (m, roots)"
    by (rule buildPoolTree_returns)
  have f: "pool_id p \<notin> forest m roots"
    using assms(1) l assms(3-5) by (rule orphan_not_in_forest)
  then have s: "pool_id p \<notin> set roots" using forest.root by blast
  have c: "\<forall>k nd. m k = Some nd \<longrightarrow> pool_id p \<notin> set (children nd)"
    using orphan_no_child [OF assms(1) l assms(3-5)] by blast
  show ?thesis using r f s c by blast
qed

theorem orphan_left_out_witness:
  "distinct (map pool_id [pool 1 ''10.0.0.0/16'' Null, pool 2 ''10.0.0.0/24'' (Ref 99)])
   \<and> length [pool 1 ''10.0.0.0/16'' Null, pool 2 ''10.0.0.0/24'' (Ref 99)] \<le> 2
   \<and> pool 2 ''10.0.0.0/24'' (Ref 99)
        \<in> set [pool 1 ''10.0.0.0/16'' Null, pool 2 ''10.0.0.0/24'' (Ref 99)]
   \<and> parentId (pool 2 ''10.0.0.0/24'' (Ref 99)) = Ref 99
   \<and> Some 99 \<notin> pool_id ` set [pool 1 ''10.0.0.0/16'' Null, pool 2 ''10.0.0.0/24'' (Ref 99)]
   \<and> buildPoolTree 2 [pool 1 ''10.0.0.0/16'' Null, pool 2 ''10.0.0.0/24'' (Ref 99)] \<noteq> None
   \<and> Some 2 \<notin> forest_of (buildPoolTree 2
        [pool 1 ''10.0.0.0/16'' Null, pool 2 ''10.0.0.0/24'' (Ref 99)])"
proof -
  let ?ps = "[pool 1 ''10.0.0.0/16'' Null, pool 2 ''10.0.0.0/24'' (Ref 99)]"
  have h: "distinct (map pool_id ?ps)" "length ?ps \<le> 2" "pool 2 ''10.0.0.0/24'' (Ref 99) \<in> set ?ps"
    "parentId (pool 2 ''10.0.0.0/24'' (Ref 99)) = Ref 99" "Some 99 \<notin> pool_id ` set ?ps"
    by simp_all
  from orphan_left_out [OF h] obtain m roots where
    "buildPoolTree 2 ?ps = Some (Inr (m, roots))" "pool_id (pool 2 ''10.0.0.0/24'' (Ref 99)) \<notin> forest m roots"
    by blast
  then have "buildPoolTree 2 ?ps \<noteq> None" "Some 2 \<notin> forest_of (buildPoolTree 2 ?ps)"
    by simp_all
  then show ?thesis using h by (simp only: simp_thms)
qed

text \<open>
  C3. The claim: with \<open>parentId\<close> present and no pool of that id, \<open>validateCIDR\<close> rejects
  with a parent-not-found error before the containment and overlap checks. The code
  guards the containment check with \<open>parent &&\<close>: without a parent it is skipped, and the
  candidate below is accepted.
\<close>

theorem validateCIDR_unknown_parent_accepted_counterexample:
  "validationError
     (validateCIDR [pool 1 ''10.0.0.0/16'' Null] [pool 1 ''10.0.0.0/16'' Null]
        ''192.168.7.0/24'' (Some 99)) = []"
proof -
  have "\<forall>p \<in> set [pool 1 ''10.0.0.0/16'' Null]. pool_id p \<noteq> Some 99" by simp
  from validateCIDR_no_parent [OF this]
  show ?thesis by (simp add: valid_example2 normalize_example2 cidrExists_def)
qed

text \<open>
  C3, as amended: with \<open>parentId\<close> present and no pool of that id, \<open>validateCIDR\<close> reports no
  parent error and skips the containment check: after the format check and the duplicate
  check it goes on to the overlap check against the pools that have the same \<open>parentId\<close>,
  and accepts the candidate when none overlaps.
\<close>

theorem validateCIDR_unknown_parent:
  assumes "\<forall>p \<in> set pools. pool_id p \<noteq> Some pid"
  shows "validationError (validateCIDR rows pools c (Some pid)) =
     (if c = [] then []
      else if \<not> isValidCIDR c then ''Invalid CIDR format. Use format like 10.0.0.0/24''
      else if cidrExists rows (normalizeCIDR c) then ''This CIDR range already exists''
      else (case find (\<lambda>sibling. cidrsOverlap (normalizeCIDR c) (cidr sibling))
                   (filter (\<lambda>p. parentId p = Ref pid) pools) of
              Some sibling \<Rightarrow>
                ''Overlaps with existing pool: '' @ name sibling @ '' ('' @ cidr sibling @ '')''
            | None \<Rightarrow> []))"
  using assms by (rule validateCIDR_no_parent)

theorem validateCIDR_unknown_parent_witness:
  "pool_id (pool 1 ''10.0.0.0/16'' Null) \<noteq> Some 99
   \<and> validationError
       (validateCIDR [pool 1 ''10.0.0.0/16'' Null] [pool 1 ''10.0.0.0/16'' Null]
          ''192.168.7.0/24'' (Some 99)) = []"
proof -
  have h: "\<forall>p \<in> set [pool 1 ''10.0.0.0/16'' Null]. pool_id p \<noteq> Some 99" by simp
  have 1: "validationError
       (validateCIDR [pool 1 ''10.0.0.0/16'' Null] [pool 1 ''10.0.0.0/16'' Null]
          ''192.168.7.0/24'' (Some 99)) = []"
    using validateCIDR_unknown_parent [OF h, of "[pool 1 ''10.0.0.0/16'' Null]" "''192.168.7.0/24''"]
    by (simp add: valid_example2 normalize_example2 cidrExists_def)
  show ?thesis using 1 by simp
qed

text \<open>
  C4. The claim: \<open>level\<close> of every node is its depth, whatever the order of the pools. The
  second loop sets \<open>node.level = parent.level + 1\<close> when it meets the child, from the level
  the parent has at that moment. With the children first (the order \<open>getAllPools\<close> gives:
  \<open>created_at DESC\<close>), pool 3 below pool 2 below pool 1 gets level 1 instead of 2.
\<close>

theorem levels_wrong_when_children_come_first:
  "tree_view (buildPoolTree 3
       [pool 3 ''10.0.0.0/25'' (Ref 2), pool 2 ''10.0.0.0/24'' (Ref 1), pool 1 ''10.0.0.0/16'' Null])
       [Some 1, Some 2, Some 3]
     = Some (Inr ([Some 1],
          [Some ([Some 2], Fin 65536, Fin 256, 0),
           Some ([Some 3], Fin 256, Fin 128, 1),
           Some ([], Fin 128, Fin 0, 1)]))"
  using chain_backward by (simp add: jint_def)

text \<open>
  C5. The claim: \<open>isValidCIDR(s)\<close> is true exactly when \<open>s\<close> is one slash-separated pair of
  four decimal octets in [0, 255] and a prefix length in [8, 32], with no other character
  and no white space. The code reads every part with \<open>parseInt\<close>, which skips leading
  white space and ignores whatever follows the digits: it accepts \<open>10.0.0.0/24abc\<close> and
  \<open> 10.0.0.0/24\<close>, which the claim rejects.
\<close>

theorem isValidCIDR_accepts_trailing_garbage:
  "isValidCIDR ''10.0.0.0/24abc'' \<and> \<not> spec_isValidCIDR ''10.0.0.0/24abc''
   \<and> isValidCIDR '' 10.0.0.0/24'' \<and> \<not> spec_isValidCIDR '' 10.0.0.0/24''"
proof -
  have p: "parseInt ''24abc'' = jint 24"
    using parseInt_prefix [of "''24''" "''abc''"]
    by (simp add: digits_simps is_digit_def dec_val_def digit_val_def)
  have q: "parseInt ''24'' = jint 24"
    using parseInt_digits_jint [of "''24''"]
    by (simp add: digits_simps is_digit_def dec_val_def digit_val_def)
  have n: "parseInt ''10'' = jint 10" "parseInt ''0'' = jint 0"
    using parseInt_digits_jint [of "''10''"] parseInt_digits_jint [of "''0''"]
    by (simp_all add: digits_simps is_digit_def dec_val_def digit_val_def)
  have w: "parseInt '' 10'' = jint 10"
    using n(1) by (simp add: parseInt_def is_ws_def)
  have i: "isValidIp ''10.0.0.0''"
    by (subst isValidIp_parts [of _ "''10''" "''0''" "''0''" "''0''" 10 0 0 0]) (simp_all add: n)
  have j: "isValidIp '' 10.0.0.0''"
    by (subst isValidIp_parts [of _ "'' 10''" "''0''" "''0''" "''0''" 10 0 0 0]) (simp_all add: n w)
  have 1: "isValidCIDR ''10.0.0.0/24abc''"
    by (subst isValidCIDR_parts [of _ "''10.0.0.0''" "''24abc''" 24]) (simp_all add: p i)
  have 2: "isValidCIDR '' 10.0.0.0/24''"
    by (subst isValidCIDR_parts [of _ "'' 10.0.0.0''" "''24''" 24]) (simp_all add: q j)
  have 3: "\<not> spec_isValidCIDR ''10.0.0.0/24abc''"
    by (simp add: spec_isValidCIDR_def digits_simps is_digit_def)
  have 4: "\<not> spec_isValidCIDR '' 10.0.0.0/24''"
    by (simp add: spec_isValidCIDR_def spec_isValidIP_def digits_simps is_digit_def)
  show ?thesis using 1 2 3 4 by simp
qed

text \<open>
  C6. The claim: for every valid address \<open>a.b.c.d\<close>, \<open>ipToNumber\<close> returns the unsigned
  value \<open>a*2^24 + b*2^16 + c*2^8 + d\<close>, also when the first octet is 128 or more. The code
  shifts with \<open><<\<close>, whose result is a signed 32-bit integer: on \<open>200.0.0.0\<close> it returns
  \<open>-939524096\<close>, not \<open>3355443200\<close>.
\<close>

theorem ipToNumber_200_negative: "ipToNumber ''200.0.0.0'' = Fin (- 939524096)"
  using ipToNumber_parts [of "''200.0.0.0''" "''200''" "''0''" "''0''" "''0''"]
  by (simp add: digits_def is_digit_def dec_val_def digit_val_def octets_value_def signed32_def jint_def)

text \<open>
  C7. For CIDRs \<open>a\<close> and \<open>b\<close> valid as the spec has it (\<open>spec_isValidCIDR\<close>: digits only,
  octets in [0, 255], prefix in [8, 32]), \<open>cidrsOverlap(a, b)\<close> is true exactly when the closed
  intervals of unsigned integers from network to broadcast address intersect
  (\<open>networkA <= broadcastB\<close> and \<open>broadcastA >= networkB\<close>); hence it is symmetric, and
  reflexive.
\<close>

theorem cidrsOverlap_intervals:
  assumes "spec_isValidCIDR a" and "spec_isValidCIDR b"
  shows "(cidrsOverlap a b
          = (block_network a \<le> block_broadcast b \<and> block_broadcast a \<ge> block_network b))
       \<and> cidrsOverlap a b = cidrsOverlap b a
       \<and> cidrsOverlap a a"
  using assms block_bounds(1) [OF assms(1)]
  by (auto simp: cidrsOverlap_valid)

theorem cidrsOverlap_intervals_witness:
  "spec_isValidCIDR ''200.0.0.0/24'' \<and> spec_isValidCIDR ''200.0.0.128/25''
   \<and> spec_isValidCIDR ''10.0.0.0/8''
   \<and> cidrsOverlap ''200.0.0.0/24'' ''200.0.0.128/25''
   \<and> cidrsOverlap ''200.0.0.128/25'' ''200.0.0.0/24''
   \<and> \<not> cidrsOverlap ''200.0.0.0/24'' ''10.0.0.0/8''
   \<and> cidrsOverlap ''10.0.0.0/8'' ''10.0.0.0/8''"
proof -
  note a = cidrsOverlap_intervals [OF valid_examples(1) valid_examples(2)]
  note b = cidrsOverlap_intervals [OF valid_examples(1) valid_examples(3)]
  note c = cidrsOverlap_intervals [OF valid_examples(3) valid_examples(3)]
  have 1: "cidrsOverlap ''200.0.0.0/24'' ''200.0.0.128/25''"
    using a by (simp only: block_examples) simp
  have 2: "cidrsOverlap ''200.0.0.128/25'' ''200.0.0.0/24''"
    using a [THEN conjunct2, THEN conjunct1] 1 by (simp only:)
  have 3: "\<not> cidrsOverlap ''200.0.0.0/24'' ''10.0.0.0/8''"
    using b by (simp only: block_examples) simp
  have 4: "cidrsOverlap ''10.0.0.0/8'' ''10.0.0.0/8''"
    by (rule c [THEN conjunct2, THEN conjunct2])
  show ?thesis using valid_examples(1-3) 1 2 3 4 by (simp only: simp_thms)
qed

text \<open>
  C8. For CIDRs valid as the spec has it (\<open>spec_isValidCIDR\<close>), \<open>isChildOfParent(child, parent)\<close>
  is true exactly when the child's
  interval from network to broadcast address lies within the parent's, bounds included;
  in particular a CIDR is a child of itself.
\<close>

theorem isChildOfParent_containment:
  assumes "spec_isValidCIDR child" and "spec_isValidCIDR parent"
  shows "(isChildOfParent child parent
          = (block_network parent \<le> block_network child
             \<and> block_broadcast child \<le> block_broadcast parent))
       \<and> isChildOfParent child child"
  using assms by (simp add: isChildOfParent_valid)

theorem isChildOfParent_containment_witness:
  "spec_isValidCIDR ''200.0.0.128/25'' \<and> spec_isValidCIDR ''200.0.0.0/24''
   \<and> spec_isValidCIDR ''200.0.1.0/24''
   \<and> isChildOfParent ''200.0.0.128/25'' ''200.0.0.0/24''
   \<and> \<not> isChildOfParent ''200.0.0.0/24'' ''200.0.0.128/25''
   \<and> \<not> isChildOfParent ''200.0.1.0/24'' ''200.0.0.0/24''
   \<and> isChildOfParent ''200.0.0.128/25'' ''200.0.0.128/25''"
proof -
  note a = isChildOfParent_containment [OF valid_examples(2) valid_examples(1)]
  note b = isChildOfParent_containment [OF valid_examples(1) valid_examples(2)]
  note c = isChildOfParent_containment [OF valid_examples(4) valid_examples(1)]
  have 1: "isChildOfParent ''200.0.0.128/25'' ''200.0.0.0/24''"
    using a by (simp only: block_examples) simp
  have 2: "\<not> isChildOfParent ''200.0.0.0/24'' ''200.0.0.128/25''"
    using b by (simp only: block_examples) simp
  have 3: "\<not> isChildOfParent ''200.0.1.0/24'' ''200.0.0.0/24''"
    using c by (simp only: block_examples) simp
  have 4: "isChildOfParent ''200.0.0.128/25'' ''200.0.0.128/25''"
    by (rule a [THEN conjunct2])
  show ?thesis using valid_examples(1,2,4) 1 2 3 4 by (simp only: simp_thms)
qed

text \<open>
  C9. For every address \<open>a.b.c.d\<close> whose four octets are decimal numbers in [0, 255]
  written without leading zeros, \<open>numberToIp(ipToNumber(ip))\<close> is \<open>ip\<close> again, also when
  the first octet is 128 or more (\<open>ipToNumber\<close> is then negative, and \<open>>>>\<close> in
  \<open>numberToIp\<close> reads its 32 bits as unsigned).
\<close>

theorem numberToIp_ipToNumber_roundtrip:
  assumes "canonical_ip ip"
  shows "numberToIp (ipToNumber ip) = ip"
proof -
  from assms have l: "length (split CHR ''.'' ip) = 4"
    and a: "list_all canonical_octet (split CHR ''.'' ip)"
    by (simp_all add: canonical_ip_def Let_def)
  from l obtain s1 s2 s3 s4 where sp: "split CHR ''.'' ip = [s1, s2, s3, s4]"
    by (auto simp: length_Suc_conv numeral_eq_Suc)
  show ?thesis using numberToIp_ipToNumber_parts [OF sp] a unfolding sp by simp
qed

theorem numberToIp_ipToNumber_roundtrip_witness:
  "canonical_ip ''200.1.0.255'' \<and> numberToIp (ipToNumber ''200.1.0.255'') = ''200.1.0.255''"
proof -
  have c: "canonical_ip ''200.1.0.255''"
    by (simp add: canonical_ip_def canonical_octet_def digits_def is_digit_def dec_val_def digit_val_def)
  show ?thesis using c numberToIp_ipToNumber_roundtrip [OF c] by simp
qed

text \<open>
  C10. For pools with pairwise distinct ids, \<open>buildPoolTree\<close> returns as soon as the depth
  allowed to \<open>calculateUsedIps\<close> is the number of pools, whatever the \<open>parentId\<close>
  references: its forest is finite and has only ids of the pools, and no pool on a cycle of
  \<open>parentId\<close> references (a pool that is its own parent included) is in it. The
  node of such a pool is never written by \<open>calculateUsedIps\<close>: its \<open>usedIps\<close> is
  still the 0 it was created with.
\<close>

theorem buildPoolTree_terminates_cycles_left_out:
  assumes "distinct (map pool_id pools)" and "length pools \<le> depth"
  shows "\<exists>m roots. buildPoolTree depth pools = Some (Inr (m, roots))
           \<and> finite (forest m roots)
           \<and> forest m roots \<subseteq> pool_id ` set pools
           \<and> (\<forall>k. on_cycle pools k \<longrightarrow>
                  k \<notin> forest m roots \<and> (\<forall>nd. m k = Some nd \<longrightarrow> usedIps nd = Fin 0))"
proof -
  from assms obtain m roots where
    r: "buildPoolTree depth pools = Some (Inr (m, roots))" and l: "linked pools (m, roots)"
    by (rule buildPoolTree_returns)
  have dm: "dom m = pool_id ` set pools" using l by (simp add: linked_def)
  have sub: "forest m roots \<subseteq> pool_id ` set pools"
  proof
    fix k assume "k \<in> forest m roots"
    then have "k \<in> dom m" using forest_up [OF l] by blast
    then show "k \<in> pool_id ` set pools" by (simp only: dm)
  qed
  then have fin: "finite (forest m roots)" by (rule finite_subset) simp
  have "k \<notin> forest m roots \<and> (\<forall>nd. m k = Some nd \<longrightarrow> usedIps nd = Fin 0)"
    if c: "on_cycle pools k" for k
  proof -
    have n: "k \<notin> forest m roots" using forest_not_on_cycle [OF l] c by blast
    then show ?thesis using buildPoolTree_untouched [OF r] by blast
  qed
  then show ?thesis using r fin sub by blast
qed

theorem buildPoolTree_terminates_cycles_left_out_witness:
  "distinct (map pool_id [pool 1 ''10.0.0.0/16'' Null, pool 2 ''10.0.0.0/24'' (Ref 3),
             pool 3 ''10.0.0.0/25'' (Ref 2), pool 4 ''10.0.0.0/24'' (Ref 4)])
   \<and> length [pool 1 ''10.0.0.0/16'' Null, pool 2 ''10.0.0.0/24'' (Ref 3),
             pool 3 ''10.0.0.0/25'' (Ref 2), pool 4 ''10.0.0.0/24'' (Ref 4)] \<le> 4
   \<and> on_cycle [pool 1 ''10.0.0.0/16'' Null, pool 2 ''10.0.0.0/24'' (Ref 3),
             pool 3 ''10.0.0.0/25'' (Ref 2), pool 4 ''10.0.0.0/24'' (Ref 4)] (Some 2)
   \<and> on_cycle [pool 1 ''10.0.0.0/16'' Null, pool 2 ''10.0.0.0/24'' (Ref 3),
             pool 3 ''10.0.0.0/25'' (Ref 2), pool 4 ''10.0.0.0/24'' (Ref 4)] (Some 4)
   \<and> buildPoolTree 4 [pool 1 ''10.0.0.0/16'' Null, pool 2 ''10.0.0.0/24'' (Ref 3),
             pool 3 ''10.0.0.0/25'' (Ref 2), pool 4 ''10.0.0.0/24'' (Ref 4)] \<noteq> None
   \<and> Some 2 \<notin> forest_of (buildPoolTree 4 [pool 1 ''10.0.0.0/16'' Null,
             pool 2 ''10.0.0.0/24'' (Ref 3), pool 3 ''10.0.0.0/25'' (Ref 2),
             pool 4 ''10.0.0.0/24'' (Ref 4)])
   \<and> Some 4 \<notin> forest_of (buildPoolTree 4 [pool 1 ''10.0.0.0/16'' Null,
             pool 2 ''10.0.0.0/24'' (Ref 3), pool 3 ''10.0.0.0/25'' (Ref 2),
             pool 4 ''10.0.0.0/24'' (Ref 4)])"
proof -
  let ?ps = "[pool 1 ''10.0.0.0/16'' Null, pool 2 ''10.0.0.0/24'' (Ref 3),
             pool 3 ''10.0.0.0/25'' (Ref 2), pool 4 ''10.0.0.0/24'' (Ref 4)]"
  have h: "distinct (map pool_id ?ps)" "length ?ps \<le> 4" by simp_all
  from buildPoolTree_terminates_cycles_left_out [OF h] obtain m roots where
    r: "buildPoolTree 4 ?ps = Some (Inr (m, roots))"
    and c: "\<forall>k. on_cycle ?ps k \<longrightarrow> k \<notin> forest m roots \<and> (\<forall>nd. m k = Some nd \<longrightarrow> usedIps nd = Fin 0)"
    by blast
  have "Some 2 \<notin> forest m roots" "Some 4 \<notin> forest m roots"
    using c cycle_examples by blast+
  then have "buildPoolTree 4 ?ps \<noteq> None" "Some 2 \<notin> forest_of (buildPoolTree 4 ?ps)"
    "Some 4 \<notin> forest_of (buildPoolTree 4 ?ps)"
    unfolding r by simp_all
  then show ?thesis using h cycle_examples by (simp only: simp_thms)
qed


end
